theory Spec2Isabelle
  imports Complex_Main "HOL-Library.Sublist"
begin

section \<open>TripVault: the client-side photo ingestion code\<close>

text \<open>
  The development embeds the scanning and upload code of the TripVault web client:
  \<^item> the local scan of the first application component (\<open>readDirHandle\<close>,
    \<open>makePhotoPreviewBlob\<close>, \<open>scanLocalFolderPhotosOnly\<close>);
  \<^item> the album page's upload loop (\<open>onPickFolder\<close>), which talks to the backend;
  \<^item> the profile page's list of shared albums.

  JavaScript numbers that hold byte counts, file counts and pixel sizes are natural
  numbers here: they are integers far below \<open>2 ^ 53\<close>, which a double holds exactly.
  Where the code divides or multiplies by a fraction (the progress percentage, the scale
  factor of the album page's preview) the result is rounded to the nearest double, as
  the language does, before \<open>Math.round\<close> sees it. The scaled side of the local scan's
  preview is \<open>Math.round\<close> of a quotient of two counts; for counts below \<open>2 ^ 52\<close>
  the rounding to a double changes nothing there (lemma \<open>Math_round_binary64\<close>), and
  the quotient is taken exactly.
  Values produced by the browser or the network (the decoded bitmap, the encoded JPEG,
  the picker's answer, a request's failure) are inputs of the model.
\<close>

subsection \<open>Thrown values and files\<close>

text \<open>A thrown value, as far as the code reads it: \<open>e.name\<close> and \<open>e.message\<close>.\<close>

record JsError =
  err_name :: string
  err_message :: string

text \<open>\<open>new Error(msg)\<close>\<close>

definition Error :: "string \<Rightarrow> JsError" where
  "Error msg = \<lparr>err_name = ''Error'', err_message = msg\<rparr>"

text \<open>
  A \<open>File\<close>: its name, its declared content type, its byte length, its modification time
  and its content. The
  content is kept abstract (type \<open>'b\<close>); only the browser's decoder and encoder read it.
\<close>

record 'b File =
  file_name :: string
  file_type :: string
  file_size :: nat
  file_lastModified :: nat
  file_bytes :: 'b

subsection \<open>Rounding\<close>

text \<open>\<open>Math.round(x)\<close>: the nearest integer, a tie going up.\<close>

definition Math_round :: "real \<Rightarrow> int" where
  "Math_round x = \<lfloor>x + 1 / 2\<rfloor>"

text \<open>\<open>Math.round(a / b)\<close> for two counts.\<close>

definition roundDiv :: "nat \<Rightarrow> nat \<Rightarrow> nat" where
  "roundDiv a b = nat (Math_round (real a / real b))"

text \<open>
  A JavaScript number is an IEEE 754 double. The result of a division or a multiplication
  is the double nearest to the exact result, a tie going to the even mantissa.
  \<open>binary64 x\<close> is that double for a real \<open>x\<close>: a mantissa of 53 bits at the exponent
  of \<open>x\<close>, which is not taken below the exponent of the smallest normal number. A result
  beyond the largest finite double does not occur in this code and is not modelled.
\<close>

definition roundTiesToEven :: "real \<Rightarrow> int" where
  "roundTiesToEven x =
     (let f = \<lfloor>x\<rfloor> in
      if x - of_int f < 1 / 2 then f
      else if x - of_int f > 1 / 2 then f + 1
      else if even f then f else f + 1)"

definition binary64 :: "real \<Rightarrow> real" where
  "binary64 x =
     (if x = 0 then 0
      else (let e = max \<lfloor>log 2 \<bar>x\<bar>\<rfloor> (- 1022) - 52
            in of_int (roundTiesToEven (x / 2 powr of_int e)) * 2 powr of_int e))"

text \<open>The mantissa of a quotient of two counts, in integer arithmetic.\<close>

definition rteDiv :: "nat \<Rightarrow> nat \<Rightarrow> nat" where
  "rteDiv a b =
     (let q = a div b; r = a mod b in
      if 2 * r < b then q else if 2 * r > b then q + 1 else if even q then q else q + 1)"

subsection \<open>The preview renderer of the local scan\<close>

text \<open>
  The size computation of \<open>makePhotoPreviewBlob\<close>:
  \<^verbatim>\<open>
  if (width > height && width > maxSide) {
    height = Math.round((height * maxSide) / width);
    width = maxSide;
  } else if (height >= width && height > maxSide) {
    width = Math.round((width * maxSide) / height);
    height = maxSide;
  }
  \<close>
  \<open>maxSide\<close> is a local constant of the source; the computation is stated for any
  value of it and used at 1280.
\<close>

definition scaledDims :: "nat \<Rightarrow> nat \<Rightarrow> nat \<Rightarrow> nat \<times> nat" where
  "scaledDims maxSide width height =
     (if width > height \<and> width > maxSide
      then (maxSide, roundDiv (height * maxSide) width)
      else if height \<ge> width \<and> height > maxSide
      then (roundDiv (width * maxSide) height, maxSide)
      else (width, height))"

text \<open>
  What the browser does for the renderer: \<open>createImageBitmap\<close> decodes a file's content
  to a bitmap of some width and height or rejects; \<open>getContext("2d")\<close> gives a context
  for a canvas of a given size or null; \<open>toBlob\<close> encodes the content drawn at a given
  size as JPEG of a given quality and hands over a blob of some byte length, or null.
\<close>

record 'b Browser =
  createImageBitmap :: "'b \<Rightarrow> JsError + nat \<times> nat"
  getContext :: "nat \<times> nat \<Rightarrow> bool"
  toBlob :: "'b \<Rightarrow> nat \<times> nat \<Rightarrow> real \<Rightarrow> nat option"

text \<open>The blob a renderer returns, with the size of the canvas it was encoded from.\<close>

record PreviewBlob =
  blob_size :: nat
  blob_width :: nat
  blob_height :: nat

definition makePhotoPreviewBlob :: "'b Browser \<Rightarrow> 'b File \<Rightarrow> JsError + PreviewBlob" where
  "makePhotoPreviewBlob br file =
     (case createImageBitmap br (file_bytes file) of
        Inl e \<Rightarrow> Inl e
      | Inr (width, height) \<Rightarrow>
          (let maxSide = 1280;
               dims = scaledDims maxSide width height in
           if \<not> getContext br dims then Inl (Error ''Canvas 2D context not available'')
           else case toBlob br (file_bytes file) dims (7 / 10) of
                  None \<Rightarrow> Inl (Error ''toBlob failed'')
                | Some n \<Rightarrow>
                    Inr \<lparr>blob_size = n, blob_width = fst dims, blob_height = snd dims\<rparr>))"

subsection \<open>The progress percentage\<close>

text \<open>
  \<^verbatim>\<open>const pct = totalBytes ? Math.round((doneBytes / totalBytes) * 100) : 0;\<close>
  The quotient is rounded to a double, and so is its product with 100.
\<close>

definition pct :: "nat \<Rightarrow> nat \<Rightarrow> int" where
  "pct doneBytes totalBytes =
     (if totalBytes \<noteq> 0
      then Math_round (binary64 (binary64 (real doneBytes / real totalBytes) * 100))
      else 0)"

subsection \<open>Enumerating a directory\<close>

datatype 'b Entry =
    FileEntry string "JsError + 'b File"
  | DirectoryEntry string "'b Entry list"
  | IterationFails JsError

fun walk :: "'b Entry list \<Rightarrow> string \<Rightarrow> ('b File \<times> string) list \<Rightarrow> JsError + ('b File \<times> string) list" where
  "walk [] pfx out = Inr out"
| "walk (FileEntry name got # entries) pfx out =
     (case got of
        Inl e \<Rightarrow> Inl e
      | Inr file \<Rightarrow> walk entries pfx (out @ [(file, pfx @ name)]))"
| "walk (DirectoryEntry name sub # entries) pfx out =
     (case walk sub (pfx @ name @ ''/'') out of
        Inl e \<Rightarrow> Inl e
      | Inr out' \<Rightarrow> walk entries pfx out')"
| "walk (IterationFails e # entries) pfx out = Inl e"

definition readDirHandle :: "'b Entry list \<Rightarrow> JsError + ('b File \<times> string) list" where
  "readDirHandle dirHandle = walk dirHandle [] []"

definition lowerChar :: "char \<Rightarrow> char" where
  "lowerChar c =
     (case map_of (zip ''ABCDEFGHIJKLMNOPQRSTUVWXYZ'' ''abcdefghijklmnopqrstuvwxyz'') c of
        None \<Rightarrow> c
      | Some l \<Rightarrow> l)"

definition toLowerCase :: "string \<Rightarrow> string" where
  "toLowerCase s = map lowerChar s"

definition startsWith :: "string \<Rightarrow> string \<Rightarrow> bool" where
  "startsWith s p = (take (length p) s = p)"

definition endsWith :: "string \<Rightarrow> string \<Rightarrow> bool" where
  "endsWith s p = (length p \<le> length s \<and> drop (length s - length p) s = p)"

definition isPhoto :: "'b File \<Rightarrow> bool" where
  "isPhoto file =
     (startsWith (file_type file) ''image/'' \<or>
      (\<exists>ext \<in> set [''.jpg'', ''.jpeg'', ''.png'', ''.webp''].
         endsWith (toLowerCase (file_name file)) ext))"


subsection \<open>The state of the local scan\<close>

record Preview =
  preview_name :: string
  preview_url :: nat
  preview_size :: nat

record LocalAlbum =
  local_id :: string
  local_title :: string
  local_createdAt :: string
  local_originalBytes :: nat
  local_previewBytes :: nat
  local_itemsScanned :: nat
  local_previewUrls :: "Preview list"

record Prog =
  totalFiles :: nat
  doneFiles :: nat
  totalBytes :: nat
  doneBytes :: nat

record ScanStats = Prog +
  originalBytes :: nat
  previewBytes :: nat

datatype Alert =
    Message string
  | QuotaExceeded nat nat

record App =
  albums :: "LocalAlbum list"
  scanProgress :: int
  scanRunning :: bool
  quotaBytes :: nat
  scanStats :: ScanStats
  statsSeen :: "ScanStats list"
  alerts :: "Alert list"
  consoleErrors :: "JsError list"
  revokedUrls :: "nat list"
  nextUrl :: nat

definition setScanStats :: "ScanStats \<Rightarrow> App \<Rightarrow> App" where
  "setScanStats s app = app\<lparr>scanStats := s, statsSeen := statsSeen app @ [s]\<rparr>"

definition alert :: "Alert \<Rightarrow> App \<Rightarrow> App" where
  "alert a app = app\<lparr>alerts := alerts app @ [a]\<rparr>"

definition zeroStats :: ScanStats where
  "zeroStats = \<lparr>totalFiles = 0, doneFiles = 0, totalBytes = 0, doneBytes = 0,
                 originalBytes = 0, previewBytes = 0\<rparr>"

definition revokeAlbumPreviews :: "string \<Rightarrow> App \<Rightarrow> App" where
  "revokeAlbumPreviews albumId app =
     app\<lparr>albums := map (\<lambda>a. if local_id a \<noteq> albumId then a
                               else a\<lparr>local_previewUrls := []\<rparr>) (albums app),
         revokedUrls := revokedUrls app @
           concat (map (\<lambda>a. if local_id a \<noteq> albumId then []
                              else map preview_url (local_previewUrls a)) (albums app))\<rparr>"

record ScanVars =
  v_doneBytes :: nat
  v_doneFiles :: nat
  v_originalBytes :: nat
  v_previewBytes :: nat
  v_previewUrls :: "Preview list"

text \<open>
  One turn of the loop over the photos, and the loop. A failing turn throws: the loop's
  variables are lost and the application state is as the previous turn left it.
  \<^verbatim>\<open>
  for (const { file } of photos) {
    originalBytes += file.size;
    const previewBlob = await makePhotoPreviewBlob(file);
    previewBytes += previewBlob.size;
    const url = URL.createObjectURL(previewBlob);
    previewUrls.push({ name: file.name, url, size: previewBlob.size });
    doneBytes += file.size;
    doneFiles += 1;
    const pct = totalBytes ? Math.round((doneBytes / totalBytes) * 100) : 0;
    setScanProgress(pct);
    setScanStats({ totalFiles: photos.length, doneFiles, totalBytes, doneBytes,
                   originalBytes, previewBytes });
  }
  \<close>
\<close>

definition scanItem ::
  "'b Browser \<Rightarrow> nat \<Rightarrow> nat \<Rightarrow> 'b File \<Rightarrow> ScanVars \<Rightarrow> App \<Rightarrow> JsError + ScanVars \<times> App" where
  "scanItem br nPhotos total_bytes file v app =
     (let v1 = v\<lparr>v_originalBytes := v_originalBytes v + file_size file\<rparr> in
      case makePhotoPreviewBlob br file of
        Inl e \<Rightarrow> Inl e
      | Inr previewBlob \<Rightarrow>
          (let v2 = v1\<lparr>v_previewBytes := v_previewBytes v1 + blob_size previewBlob\<rparr>;
               url = nextUrl app;
               app1 = app\<lparr>nextUrl := Suc url\<rparr>;
               v3 = v2\<lparr>v_previewUrls := v_previewUrls v2 @
                          [\<lparr>preview_name = file_name file, preview_url = url,
                            preview_size = blob_size previewBlob\<rparr>]\<rparr>;
               v4 = v3\<lparr>v_doneBytes := v_doneBytes v3 + file_size file\<rparr>;
               v5 = v4\<lparr>v_doneFiles := v_doneFiles v4 + 1\<rparr>;
               app2 = app1\<lparr>scanProgress := pct (v_doneBytes v5) total_bytes\<rparr>;
               app3 = setScanStats
                        \<lparr>totalFiles = nPhotos, doneFiles = v_doneFiles v5,
                         totalBytes = total_bytes, doneBytes = v_doneBytes v5,
                         originalBytes = v_originalBytes v5,
                         previewBytes = v_previewBytes v5\<rparr> app2
           in Inr (v5, app3)))"

fun scanLoop ::
  "'b Browser \<Rightarrow> nat \<Rightarrow> nat \<Rightarrow> ('b File \<times> string) list \<Rightarrow> ScanVars \<Rightarrow> App
     \<Rightarrow> (JsError + ScanVars) \<times> App" where
  "scanLoop br nPhotos total_bytes [] v app = (Inr v, app)"
| "scanLoop br nPhotos total_bytes ((file, rel) # rest) v app =
     (case scanItem br nPhotos total_bytes file v app of
        Inl e \<Rightarrow> (Inl e, app)
      | Inr (v', app') \<Rightarrow> scanLoop br nPhotos total_bytes rest v' app')"

definition scanBody :: "'b Browser \<Rightarrow> (JsError + 'b Entry list) option \<Rightarrow> string \<Rightarrow> App
     \<Rightarrow> JsError option \<times> App" where
  "scanBody br picker albumId app =
     (case picker of
        None \<Rightarrow>
          (None, alert (Message ''Folder picking needs Chrome/Edge (File System Access API).'') app)
      | Some (Inl e) \<Rightarrow> (Some e, app)
      | Some (Inr dirHandle) \<Rightarrow>
          (case readDirHandle dirHandle of
             Inl e \<Rightarrow> (Some e, app)
           | Inr items \<Rightarrow>
               (let photos = filter (\<lambda>(file, rel). isPhoto file) items;
                    total_bytes = foldl (\<lambda>s (file, rel). s + file_size file) 0 photos
                in if total_bytes > quotaBytes app
                   then (None, alert (QuotaExceeded total_bytes (quotaBytes app)) app)
                   else
                     (let app1 = setScanStats
                                   ((scanStats app)\<lparr>totalFiles := length photos,
                                                     totalBytes := total_bytes\<rparr>) app
                      in case scanLoop br (length photos) total_bytes photos
                                \<lparr>v_doneBytes = 0, v_doneFiles = 0, v_originalBytes = 0,
                                 v_previewBytes = 0, v_previewUrls = []\<rparr> app1 of
                           (Inl e, app2) \<Rightarrow> (Some e, app2)
                         | (Inr v, app2) \<Rightarrow>
                             (None,
                              app2\<lparr>albums :=
                                map (\<lambda>a. if local_id a = albumId
                                          then a\<lparr>local_originalBytes := v_originalBytes v,
                                                 local_previewBytes := v_previewBytes v,
                                                 local_itemsScanned := length photos,
                                                 local_previewUrls := v_previewUrls v\<rparr>
                                          else a) (albums app2)\<rparr>)))))"

definition scanCatch :: "JsError option \<Rightarrow> App \<Rightarrow> App" where
  "scanCatch thrown app =
     (case thrown of
        None \<Rightarrow> app
      | Some e \<Rightarrow>
          (let app1 = app\<lparr>consoleErrors := consoleErrors app @ [e]\<rparr>
           in if err_name e \<noteq> ''AbortError''
              then alert (Message (if err_message e \<noteq> [] then err_message e else ''Scan failed'')) app1
              else app1))"

definition scanLocalFolderPhotosOnly ::
  "'b Browser \<Rightarrow> (JsError + 'b Entry list) option \<Rightarrow> string \<Rightarrow> App \<Rightarrow> App" where
  "scanLocalFolderPhotosOnly br picker albumId app =
     (let app1 = app\<lparr>scanRunning := True\<rparr>;
          app2 = app1\<lparr>scanProgress := 0\<rparr>;
          app3 = setScanStats zeroStats app2;
          app4 = revokeAlbumPreviews albumId app3;
          (thrown, app5) = scanBody br picker albumId app4;
          app6 = scanCatch thrown app5
      in app6\<lparr>scanRunning := False\<rparr>)"

text \<open>
  Vocabulary for the statements about the scan: whether a photo's preview can be made,
  the size of that preview, the original bytes of a list of photos, the photos among the
  enumerated files, and the statistics published once a list of photos is finished.
\<close>

definition renders :: "'b Browser \<Rightarrow> 'b File \<times> string \<Rightarrow> bool" where
  "renders br p = (case makePhotoPreviewBlob br (fst p) of Inl e \<Rightarrow> False | Inr b \<Rightarrow> True)"

definition previewSize :: "'b Browser \<Rightarrow> 'b File \<times> string \<Rightarrow> nat" where
  "previewSize br p = (case makePhotoPreviewBlob br (fst p) of Inl e \<Rightarrow> 0 | Inr b \<Rightarrow> blob_size b)"

definition bytesOf :: "('b File \<times> string) list \<Rightarrow> nat" where
  "bytesOf photos = sum_list (map (\<lambda>p. file_size (fst p)) photos)"

definition statsAfter ::
  "'b Browser \<Rightarrow> nat \<Rightarrow> nat \<Rightarrow> ScanVars \<Rightarrow> ('b File \<times> string) list \<Rightarrow> ScanStats" where
  "statsAfter br nPhotos total_bytes v finished =
     \<lparr>totalFiles = nPhotos, doneFiles = v_doneFiles v + length finished,
      totalBytes = total_bytes, doneBytes = v_doneBytes v + bytesOf finished,
      originalBytes = v_originalBytes v + bytesOf finished,
      previewBytes = v_previewBytes v + sum_list (map (previewSize br) finished)\<rparr>"

definition photosOf :: "('b File \<times> string) list \<Rightarrow> ('b File \<times> string) list" where
  "photosOf entries = filter (\<lambda>(file, rel). isPhoto file) entries"

text \<open>The state in which the scan enters its \<open>try\<close> block, and the loop's variables there.\<close>

definition scanStart :: "string \<Rightarrow> App \<Rightarrow> App" where
  "scanStart albumId app =
     revokeAlbumPreviews albumId
       (setScanStats zeroStats (app\<lparr>scanRunning := True, scanProgress := 0\<rparr>))"

definition startVars :: ScanVars where
  "startVars = \<lparr>v_doneBytes = 0, v_doneFiles = 0, v_originalBytes = 0,
                 v_previewBytes = 0, v_previewUrls = []\<rparr>"

subsection \<open>The album page: rendering a preview\<close>

text \<open>
  The size computation of \<open>makePreviewBlob\<close>:
  \<^verbatim>\<open>
  const scale = Math.min(1, maxSide / Math.max(width, height));
  const w = Math.max(1, Math.round(width * scale));
  const h = Math.max(1, Math.round(height * scale));
  \<close>
  The scale factor is a double, and so is each product with it. For a bitmap without
  pixels the quotient is infinite and the scale factor is 1 (\<open>maxSide\<close> is 640 at the
  one place of call).
\<close>

definition previewDims :: "nat \<Rightarrow> nat \<Rightarrow> nat \<Rightarrow> nat \<times> nat" where
  "previewDims maxSide width height =
     (let scale = (if max width height = 0 then 1
                   else min 1 (binary64 (real maxSide / real (max width height))));
          w = max 1 (Math_round (binary64 (real width * scale)));
          h = max 1 (Math_round (binary64 (real height * scale)))
      in (nat w, nat h))"

text \<open>What the upload loop asks of the browser and of the network, beyond the renderer.\<close>

record ('b, 'q) Cloud = "'b Browser" +
  arrayBuffer :: "'b File \<Rightarrow> JsError + 'b"
  digest :: "'b \<Rightarrow> nat list"
  exifDate :: "'b File \<Rightarrow> string option"
  selectFails :: "'b File \<Rightarrow> bool"
  reserve_quota_rpc :: "'q \<Rightarrow> nat \<Rightarrow> JsError option \<times> 'q"
  uploadError :: "'b File \<Rightarrow> JsError option"
  getUser :: "'b File \<Rightarrow> string option"
  insertError :: "'b File \<Rightarrow> JsError option"

definition hexDigit :: "nat \<Rightarrow> char" where
  "hexDigit d = ''0123456789abcdef'' ! d"

definition sha256Hex :: "('b, 'q) Cloud \<Rightarrow> 'b \<Rightarrow> string" where
  "sha256Hex cloud buf =
     concat (map (\<lambda>b. if b < 16 then [CHR ''0'', hexDigit b]
                       else [hexDigit (b div 16), hexDigit (b mod 16)]) (digest cloud buf))"

definition imageDims :: "('b, 'q) Cloud \<Rightarrow> 'b File \<Rightarrow> JsError + nat \<times> nat" where
  "imageDims cloud file = createImageBitmap cloud (file_bytes file)"

definition makePreviewBlob ::
  "('b, 'q) Cloud \<Rightarrow> 'b File \<Rightarrow> nat \<Rightarrow> real \<Rightarrow> JsError + PreviewBlob" where
  "makePreviewBlob cloud file maxSide quality =
     (case createImageBitmap cloud (file_bytes file) of
        Inl e \<Rightarrow> Inl e
      | Inr (width, height) \<Rightarrow>
          (let dims = previewDims maxSide width height in
           if \<not> getContext cloud dims then Inl (Error ''No canvas context'')
           else case toBlob cloud (file_bytes file) dims quality of
                  None \<Rightarrow> Inl (Error ''Preview encode failed'')
                | Some n \<Rightarrow>
                    Inr \<lparr>blob_size = n, blob_width = fst dims, blob_height = snd dims\<rparr>))"

definition isImageFile :: "'b File \<Rightarrow> bool" where
  "isImageFile f =
     (let t = toLowerCase (file_type f) in
      startsWith t ''image/'' \<or>
      (\<exists>ext \<in> set [''.jpg'', ''.jpeg'', ''.png'', ''.webp'', ''.tif'', ''.tiff'', ''.heic'', ''.heif''].
         endsWith (toLowerCase (file_name f)) ext))"

subsection \<open>The album page: state and backend\<close>

datatype Role = Read | Write

record MediaItem =
  media_id :: nat
  media_album_id :: string
  media_owner_id :: string
  media_sha256 :: string
  media_file_name :: string
  media_size_bytes :: nat
  media_last_modified_ms :: nat
  media_captured_at :: "string option"
  media_width :: nat
  media_height :: nat
  media_preview_path :: string

record 'q Supabase =
  media_items :: "MediaItem list"
  previews :: "(string \<times> nat) list"
  quota :: 'q

record ('b, 'q) AlbumPage =
  items :: "MediaItem list"
  msg :: "string option"
  busy :: bool
  myRole :: Role
  prog :: Prog
  progSeen :: "Prog list"
  reserveCalls :: "('b File \<times> nat) list"
  supabase :: "'q Supabase"

definition setProg :: "Prog \<Rightarrow> ('b, 'q) AlbumPage \<Rightarrow> ('b, 'q) AlbumPage" where
  "setProg p st = st\<lparr>prog := p, progSeen := progSeen st @ [p]\<rparr>"


definition maybeSingle :: "'a list \<Rightarrow> 'a option" where
  "maybeSingle rows = (case rows of [r] \<Rightarrow> Some r | _ \<Rightarrow> None)"

definition upsert :: "string \<Rightarrow> nat \<Rightarrow> (string \<times> nat) list \<Rightarrow> (string \<times> nat) list" where
  "upsert path n objects = (path, n) # filter (\<lambda>(p, _). p \<noteq> path) objects"

definition uploadItem ::
  "('b, 'q) Cloud \<Rightarrow> string \<Rightarrow> 'b File \<Rightarrow> nat \<times> nat \<Rightarrow> ('b, 'q) AlbumPage
     \<Rightarrow> JsError option \<times> (nat \<times> nat) \<times> ('b, 'q) AlbumPage" where
  "uploadItem cloud albumId file done st =
     (case arrayBuffer cloud file of
        Inl e \<Rightarrow> (Some e, done, st)
      | Inr buf \<Rightarrow>
          (let sha = sha256Hex cloud buf;
               exists_data =
                 (if selectFails cloud file then None
                  else maybeSingle
                         (filter (\<lambda>r. media_album_id r = albumId \<and> media_sha256 r = sha)
                            (media_items (supabase st))))
           in if exists_data \<noteq> None
              then (let done' = (fst done + file_size file, snd done + 1)
                    in (None, done',
                        setProg ((prog st)\<lparr>doneFiles := snd done', doneBytes := fst done'\<rparr>) st))
              else
                (case imageDims cloud file of
                   Inl e \<Rightarrow> (Some e, done, st)
                 | Inr dims \<Rightarrow>
                     (let captured_at = exifDate cloud file in
                      case makePreviewBlob cloud file 640 (8 / 10) of
                        Inl e \<Rightarrow> (Some e, done, st)
                      | Inr previewBlob \<Rightarrow>
                          (let (qerr, q') =
                                 reserve_quota_rpc cloud (quota (supabase st)) (blob_size previewBlob);
                               st1 = st\<lparr>supabase := (supabase st)\<lparr>quota := q'\<rparr>,
                                        reserveCalls := reserveCalls st @ [(file, blob_size previewBlob)]\<rparr>
                           in case qerr of
                                Some e \<Rightarrow> (Some e, done, st1)
                              | None \<Rightarrow>
                                  (let previewPath = albumId @ ''/'' @ sha @ ''.jpg'' in
                                   case uploadError cloud file of
                                     Some e \<Rightarrow> (Some e, done, st1)
                                   | None \<Rightarrow>
                                       (let st2 = st1\<lparr>supabase := (supabase st1)
                                                    \<lparr>previews := upsert previewPath (blob_size previewBlob)
                                                                   (previews (supabase st1))\<rparr>\<rparr>
                                        in case getUser cloud file of
                                             None \<Rightarrow> (Some (Error ''No user''), done, st2)
                                           | Some uid \<Rightarrow>
                                               (case insertError cloud file of
                                                  Some e \<Rightarrow> (Some e, done, st2)
                                                | None \<Rightarrow>
                                                    (let row = \<lparr>media_id = length (media_items (supabase st2)),
                                                                media_album_id = albumId,
                                                                media_owner_id = uid,
                                                                media_sha256 = sha,
                                                                media_file_name = file_name file,
                                                                media_size_bytes = file_size file,
                                                                media_last_modified_ms = file_lastModified file,
                                                                media_captured_at = captured_at,
                                                                media_width = fst dims,
                                                                media_height = snd dims,
                                                                media_preview_path = previewPath\<rparr>;
                                                         st3 = st2\<lparr>supabase := (supabase st2)
                                                                 \<lparr>media_items := media_items (supabase st2) @ [row]\<rparr>,
                                                                  items := row # items st2\<rparr>;
                                                         done' = (fst done + file_size file, snd done + 1)
                                                     in (None, done',
                                                         setProg ((prog st3)\<lparr>doneFiles := snd done',
                                                                              doneBytes := fst done'\<rparr>) st3))))))))))"

fun uploadLoop ::
  "('b, 'q) Cloud \<Rightarrow> string \<Rightarrow> 'b File list \<Rightarrow> nat \<times> nat \<Rightarrow> ('b, 'q) AlbumPage
     \<Rightarrow> JsError option \<times> (nat \<times> nat) \<times> ('b, 'q) AlbumPage" where
  "uploadLoop cloud albumId [] done st = (None, done, st)"
| "uploadLoop cloud albumId (file # rest) done st =
     (case uploadItem cloud albumId file done st of
        (Some e, done', st') \<Rightarrow> (Some e, done', st')
      | (None, done', st') \<Rightarrow> uploadLoop cloud albumId rest done' st')"

definition onPickFolder ::
  "('b, 'q) Cloud \<Rightarrow> string \<Rightarrow> 'b File list \<Rightarrow> ('b, 'q) AlbumPage \<Rightarrow> ('b, 'q) AlbumPage" where
  "onPickFolder cloud albumId files st =
     (let st0 = st\<lparr>msg := None\<rparr> in
      if files = [] then st0
      else if myRole st0 \<noteq> Write then st0\<lparr>msg := Some ''You only have read access.''\<rparr>
      else
        (let images = filter isImageFile files in
         if images = [] then st0\<lparr>msg := Some ''No images found in selected folder.''\<rparr>
         else
           (let total_bytes = foldl (\<lambda>s f. s + file_size f) 0 images;
                st1 = setProg \<lparr>totalFiles = length images, doneFiles = 0,
                               totalBytes = total_bytes, doneBytes = 0\<rparr> st0;
                st2 = st1\<lparr>busy := True\<rparr>;
                (thrown, done, st3) = uploadLoop cloud albumId images (0, 0) st2;
                st4 = (case thrown of
                         None \<Rightarrow> st3
                       | Some err \<Rightarrow> st3\<lparr>msg := Some (err_message err)\<rparr>)
            in st4\<lparr>busy := False\<rparr>)))"

subsection \<open>The profile page: albums shared with the user\<close>









text \<open>
  Modelled from the spec: the backend function behind the \<open>reserve_quota\<close> call is not
  part of the client's sources. The specification describes it as one operation that
  reads the current usage, verifies \<open>used + delta \<le> limit\<close> and, if so, increments
  \<open>used\<close> and returns success, and otherwise fails with \<open>QuotaExceededError\<close>.
\<close>

record QuotaAccount =
  used_bytes :: nat
  limit_bytes :: nat

definition reserve_quota :: "QuotaAccount \<Rightarrow> nat \<Rightarrow> JsError option \<times> QuotaAccount" where
  "reserve_quota acct delta_bytes =
     (if used_bytes acct + delta_bytes \<le> limit_bytes acct
      then (None, acct\<lparr>used_bytes := used_bytes acct + delta_bytes\<rparr>)
      else (Some \<lparr>err_name = ''QuotaExceededError'', err_message = ''Quota exceeded''\<rparr>, acct))"

definition progAfter :: "Prog \<Rightarrow> nat \<times> nat \<Rightarrow> 'b File list \<Rightarrow> Prog" where
  "progAfter p dn finished =
     p\<lparr>doneFiles := snd dn + length finished,
       doneBytes := fst dn + sum_list (map file_size finished)\<rparr>"

definition uploadStart :: "'b File list \<Rightarrow> ('b, 'q) AlbumPage \<Rightarrow> ('b, 'q) AlbumPage" where
  "uploadStart files st =
     (setProg \<lparr>totalFiles = length (filter isImageFile files), doneFiles = 0,
               totalBytes = sum_list (map file_size (filter isImageFile files)), doneBytes = 0\<rparr>
        (st\<lparr>msg := None\<rparr>))\<lparr>busy := True\<rparr>"

definition scanHeader :: "('b File \<times> string) list \<Rightarrow> string \<Rightarrow> App \<Rightarrow> App" where
  "scanHeader photos albumId app =
     setScanStats ((scanStats (scanStart albumId app))\<lparr>totalFiles := length photos,
                                                       totalBytes := bytesOf photos\<rparr>)
       (scanStart albumId app)"

text \<open>
  Two snapshots of the scan's counters are in order when neither the number of files done
  nor the number of bytes done goes down from the first to the second.
\<close>

definition neverBack :: "ScanStats \<Rightarrow> ScanStats \<Rightarrow> bool" where
  "neverBack s s' = (doneFiles s \<le> doneFiles s' \<and> doneBytes s \<le> doneBytes s')"

text \<open>
  The progress record \<open>onPickFolder\<close> publishes before its loop: the totals of the
  selection's images, nothing done.
\<close>

definition uploadHeader :: "'b File list \<Rightarrow> Prog" where
  "uploadHeader files =
     \<lparr>totalFiles = length (filter isImageFile files), doneFiles = 0,
      totalBytes = sum_list (map file_size (filter isImageFile files)), doneBytes = 0\<rparr>"


text \<open>
  A catalogue row is charged for by a reservation when the row is that of the
  reservation's file and the reserved bytes are the size of that file's preview. A list
  of reservations is granted from an account when each of them, in turn, is answered
  without an error.
\<close>

definition chargedFor :: "('b, 'q) Cloud \<Rightarrow> MediaItem \<Rightarrow> 'b File \<times> nat \<Rightarrow> bool" where
  "chargedFor cloud row c =
     (media_file_name row = file_name (fst c) \<and> media_size_bytes row = file_size (fst c) \<and>
      (case makePreviewBlob cloud (fst c) 640 (8 / 10) of
         Inl e \<Rightarrow> False
       | Inr blob \<Rightarrow> snd c = blob_size blob))"

fun granted :: "('q \<Rightarrow> nat \<Rightarrow> JsError option \<times> 'q) \<Rightarrow> 'q \<Rightarrow> nat list \<Rightarrow> bool" where
  "granted rpc q [] = True"
| "granted rpc q (delta # deltas) =
     (fst (rpc q delta) = None \<and> granted rpc (snd (rpc q delta)) deltas)"

section \<open>Sample data\<close>

text \<open>Concrete inputs on which the theorems below are instantiated.\<close>

definition photoA :: "nat File" where
  "photoA = \<lparr>file_name = ''beach.JPG'', file_type = ''image/jpeg'', file_size = 62914560,
              file_lastModified = 1700000000000, file_bytes = 1\<rparr>"

definition photoCopy :: "nat File" where
  "photoCopy = \<lparr>file_name = ''copy of beach.jpeg'', file_type = '''', file_size = 62914560,
                 file_lastModified = 1700000500000, file_bytes = 1\<rparr>"

definition sampleBrowser :: "nat Browser" where
  "sampleBrowser =
     \<lparr>createImageBitmap =
        (\<lambda>b. if b = 0
              then Inl \<lparr>err_name = ''InvalidStateError'',
                        err_message = ''The source image could not be decoded.''\<rparr>
              else Inr (4000, 3000)),
      getContext = (\<lambda>d. True),
      toBlob = (\<lambda>b d q. Some (b * 1048576))\<rparr>"

definition otherEncoder :: "nat Browser" where
  "otherEncoder = sampleBrowser\<lparr>toBlob := (\<lambda>b d q. Some 2097152)\<rparr>"




definition goaLocal :: LocalAlbum where
  "goaLocal = \<lparr>local_id = ''L1'', local_title = ''Goa'', local_createdAt = ''2025-01-05T10:00:00.000Z'',
                local_originalBytes = 4000000, local_previewBytes = 500000, local_itemsScanned = 1,
                local_previewUrls = [\<lparr>preview_name = ''old.jpg'', preview_url = 3,
                                      preview_size = 500000\<rparr>]\<rparr>"

definition alpsLocal :: LocalAlbum where
  "alpsLocal = \<lparr>local_id = ''L2'', local_title = ''Alps'', local_createdAt = ''2025-02-11T09:30:00.000Z'',
                 local_originalBytes = 6000000, local_previewBytes = 700000, local_itemsScanned = 1,
                 local_previewUrls = [\<lparr>preview_name = ''peak.jpg'', preview_url = 4,
                                       preview_size = 700000\<rparr>]\<rparr>"

definition sampleApp :: App where
  "sampleApp = \<lparr>albums = [goaLocal, alpsLocal], scanProgress = 100, scanRunning = False,
                 quotaBytes = 104857600, scanStats = zeroStats, statsSeen = [], alerts = [],
                 consoleErrors = [], revokedUrls = [], nextUrl = 5\<rparr>"



definition beachDir :: "nat Entry list" where
  "beachDir = [FileEntry ''beach.JPG'' (Inr photoA),
               DirectoryEntry ''notes'' [FileEntry ''todo.txt''
                  (Inr \<lparr>file_name = ''todo.txt'', file_type = ''text/plain'', file_size = 120,
                        file_lastModified = 1700000000000, file_bytes = 7\<rparr>)]]"

definition sampleCloud :: "(nat, QuotaAccount) Cloud" where
  "sampleCloud =
     \<lparr>createImageBitmap = createImageBitmap sampleBrowser,
      getContext = getContext sampleBrowser,
      toBlob = toBlob sampleBrowser,
      arrayBuffer = (\<lambda>f. Inr (file_bytes f)),
      digest = (\<lambda>b. [b, 171]),
      exifDate = (\<lambda>f. None),
      selectFails = (\<lambda>f. False),
      reserve_quota_rpc = reserve_quota,
      uploadError = (\<lambda>f. None),
      getUser = (\<lambda>f. Some ''u7''),
      insertError = (\<lambda>f. None)\<rparr>"

definition samplePage :: "(nat, QuotaAccount) AlbumPage" where
  "samplePage =
     \<lparr>items = [], msg = Some ''earlier message'', busy = False, myRole = Write,
      prog = \<lparr>totalFiles = 0, doneFiles = 0, totalBytes = 0, doneBytes = 0\<rparr>,
      progSeen = [], reserveCalls = [],
      supabase = \<lparr>media_items = [], previews = [],
                   quota = \<lparr>used_bytes = 0, limit_bytes = 1500000\<rparr>\<rparr>\<rparr>"

definition photoB :: "nat File" where
  "photoB = \<lparr>file_name = ''hill.png'', file_type = [], file_size = 62914560,
              file_lastModified = 1700000100000, file_bytes = 2\<rparr>"

definition torn :: "nat File" where
  "torn = \<lparr>file_name = ''torn.jpg'', file_type = ''image/jpeg'', file_size = 1000,
            file_lastModified = 1700000200000, file_bytes = 0\<rparr>"

definition hillDir :: "nat Entry list" where
  "hillDir = [FileEntry ''hill.png'' (Inr photoB)]"

definition twoPhotosDir :: "nat Entry list" where
  "twoPhotosDir = [FileEntry ''beach.JPG'' (Inr photoA),
                   DirectoryEntry ''day2'' [FileEntry ''hill.png'' (Inr photoB)]]"

definition tornFirstDir :: "nat Entry list" where
  "tornFirstDir = [FileEntry ''torn.jpg'' (Inr torn), FileEntry ''beach.JPG'' (Inr photoA)]"

definition tornLastDir :: "nat Entry list" where
  "tornLastDir = [FileEntry ''beach.JPG'' (Inr photoA), FileEntry ''torn.jpg'' (Inr torn)]"

definition quotaExceededError :: JsError where
  "quotaExceededError = \<lparr>err_name = ''QuotaExceededError'', err_message = ''Quota exceeded''\<rparr>"

definition decodeError :: JsError where
  "decodeError = \<lparr>err_name = ''InvalidStateError'',
                   err_message = ''The source image could not be decoded.''\<rparr>"

definition afterFailedReserve :: "(nat, QuotaAccount) AlbumPage" where
  "afterFailedReserve =
     (uploadStart [photoB, photoA] samplePage)
        \<lparr>supabase := (supabase (uploadStart [photoB, photoA] samplePage))
                        \<lparr>quota := \<lparr>used_bytes = 0, limit_bytes = 1500000\<rparr>\<rparr>,
         reserveCalls := reserveCalls (uploadStart [photoB, photoA] samplePage) @ [(photoB, 2097152)]\<rparr>"

section \<open>Properties\<close>

subsection \<open>Rounding in natural numbers\<close>

lemma Math_round_div:
  assumes "0 < b"
  shows "Math_round (real a / real b) = int ((2 * a + b) div (2 * b))"
proof -
  have "real a / real b + 1 / 2 = real (2 * a + b) / real (2 * b)"
    using assms by (simp add: field_simps)
  then have "Math_round (real a / real b) = \<lfloor>real (2 * a + b) / real (2 * b)\<rfloor>"
    by (simp only: Math_round_def)
  also have "\<dots> = int ((2 * a + b) div (2 * b))"
    by (simp only: floor_divide_of_nat_eq)
  finally show ?thesis .
qed

lemma roundDiv_nat:
  assumes "0 < b"
  shows "roundDiv a b = (2 * a + b) div (2 * b)"
  by (simp only: roundDiv_def Math_round_div [OF assms] nat_int)






subsection \<open>Rounding to a double\<close>

lemma rte_near: "\<bar>of_int (roundTiesToEven s) - s\<bar> \<le> 1 / 2"
  unfolding roundTiesToEven_def Let_def by (auto simp: abs_if) linarith+


lemma rte_int: "roundTiesToEven (of_int n) = n"
  unfolding roundTiesToEven_def Let_def by simp



lemma pow2_pos: "0 < (2::real) powr x"
  by simp

lemma exponent_of:
  assumes "0 < x"
  shows "2 powr of_int \<lfloor>log 2 x\<rfloor> \<le> x" and "x < 2 powr (of_int \<lfloor>log 2 x\<rfloor> + 1)"
proof -
  have "of_int \<lfloor>log 2 x\<rfloor> \<le> log 2 x" by simp
  then show "2 powr of_int \<lfloor>log 2 x\<rfloor> \<le> x"
    using assms by (simp only: le_log_iff [of 2 x, OF _ assms, symmetric])
  have "log 2 x < of_int \<lfloor>log 2 x\<rfloor> + 1" by linarith
  then show "x < 2 powr (of_int \<lfloor>log 2 x\<rfloor> + 1)"
    using assms by (simp only: log_less_iff [of 2 x, OF _ assms, symmetric])
qed

lemma exponent_unique:
  assumes "2 powr of_int k \<le> x" and "x < 2 powr (of_int k + 1)"
  shows "\<lfloor>log 2 x\<rfloor> = k"
proof -
  have p: "0 < x" using assms(1) pow2_pos [of "of_int k"] by linarith
  from assms(1) p have "of_int k \<le> log 2 x" by (simp add: le_log_iff)
  moreover from assms(2) p have "log 2 x < of_int k + 1" by (simp add: log_less_iff)
  ultimately show ?thesis by (simp add: floor_eq_iff)
qed

lemma abs_scale:
  fixes a c x :: real
  assumes "0 < c"
  shows "\<bar>a * c - x\<bar> = \<bar>a - x / c\<bar> * c"
proof -
  have "a * c - x = (a - x / c) * c"
    using assms by (simp add: field_simps)
  then have "\<bar>a * c - x\<bar> = \<bar>a - x / c\<bar> * \<bar>c\<bar>"
    by (simp only: abs_mult)
  with assms show ?thesis by simp
qed

text \<open>The rounding error in the normal range.\<close>

lemma binary64_error:
  assumes "2 powr (- 1022) \<le> x"
  shows "\<bar>binary64 x - x\<bar> \<le> x * 2 powr (- 53)"
proof -
  have p: "0 < x" using assms pow2_pos [of "- 1022"] by linarith
  define k where "k = \<lfloor>log 2 x\<rfloor>"
  from assms p have "- 1022 \<le> log 2 x" by (simp add: le_log_iff)
  then have k: "- 1022 \<le> k" unfolding k_def by (simp add: le_floor_iff)
  define e where "e = k - 52"
  from k have m: "max k (- 1022) = k" by simp
  have "binary64 x = (let e = max k (- 1022) - 52
            in of_int (roundTiesToEven (x / 2 powr of_int e)) * 2 powr of_int e)"
    using p by (simp add: binary64_def k_def)
  then have b: "binary64 x = of_int (roundTiesToEven (x / 2 powr of_int e)) * 2 powr of_int e"
    unfolding m e_def Let_def .
  have "\<bar>binary64 x - x\<bar> =
      \<bar>of_int (roundTiesToEven (x / 2 powr of_int e)) - x / 2 powr of_int e\<bar> * 2 powr of_int e"
    unfolding b by (rule abs_scale) simp
  also have "\<dots> \<le> 1 / 2 * 2 powr of_int e"
    by (intro mult_right_mono rte_near) simp
  also have "\<dots> = 2 powr of_int k * 2 powr (- 53)"
    by (simp add: e_def powr_diff powr_minus field_simps)
  also have "\<dots> \<le> x * 2 powr (- 53)"
    using exponent_of(1) [OF p] by (intro mult_right_mono) (simp_all add: k_def)
  finally show ?thesis .
qed

lemma rte_ratio:
  assumes "0 < b"
  shows "roundTiesToEven (real a / real b) = int (rteDiv a b)"
proof -
  have f: "\<lfloor>real a / real b\<rfloor> = int (a div b)"
    by (simp only: floor_divide_of_nat_eq)
  have "real a = real (a div b) * real b + real (a mod b)"
    by (simp only: of_nat_mult [symmetric] of_nat_add [symmetric] div_mult_mod_eq)
  then have "real a / real b = (real (a div b) * real b + real (a mod b)) / real b"
    by (simp only:)
  also have "\<dots> = real (a div b) + real (a mod b) / real b"
    using assms by (simp add: add_divide_distrib)
  finally have "real a / real b = real (a div b) + real (a mod b) / real b" .
  then have d: "real a / real b - of_int (int (a div b)) = real (a mod b) / real b"
    by simp
  have lt: "real (a mod b) / real b < 1 / 2 \<longleftrightarrow> 2 * (a mod b) < b"
    using assms by (simp add: field_simps) linarith
  have gt: "real (a mod b) / real b > 1 / 2 \<longleftrightarrow> 2 * (a mod b) > b"
    using assms by (simp add: field_simps) linarith
  show ?thesis
    unfolding roundTiesToEven_def f Let_def d lt gt rteDiv_def
    by simp
qed

lemma pow2_neg: "2 powr (- real n) = 1 / 2 ^ n"
  by (simp add: powr_minus powr_realpow inverse_eq_divide)

lemma binary64_zero: "binary64 0 = 0"
  by (simp add: binary64_def)

lemma binary64_fine:
  assumes "0 < x" and "x < 2 ^ 52"
  shows "\<exists>n. binary64 x = of_int (roundTiesToEven (x * 2 ^ Suc n)) / 2 ^ Suc n"
proof -
  define e where "e = max \<lfloor>log 2 x\<rfloor> (- 1022) - 52"
  from assms have "log 2 x < 52"
    by (simp add: log_less_iff [OF _ assms(1)] powr_realpow [symmetric])
  then have "\<lfloor>log 2 x\<rfloor> < 52" by (simp add: floor_less_iff)
  then have "e \<le> - 1" by (simp add: e_def)
  then have e: "of_int e = - real (Suc (nat (- e - 1)))" by simp
  have "binary64 x = of_int (roundTiesToEven (x / 2 powr of_int e)) * 2 powr of_int e"
    using assms(1) by (simp add: binary64_def e_def Let_def)
  then have "binary64 x =
      of_int (roundTiesToEven (x * 2 ^ Suc (nat (- e - 1)))) / 2 ^ Suc (nat (- e - 1))"
    unfolding e pow2_neg by simp
  then show ?thesis by (rule exI)
qed





text \<open>The double nearest to a quotient of two counts, once its exponent is known.\<close>

lemma binary64_ratio:
  assumes "0 < b" and "2 ^ 52 * b \<le> a * 2 ^ n" and "a * 2 ^ n < 2 ^ 53 * b" and "n \<le> 1074"
  shows "binary64 (real a / real b) = real (rteDiv (a * 2 ^ n) b) / 2 ^ n"
proof -
  let ?x = "real a / real b"
  from assms(2) have "real (2 ^ 52 * b) \<le> real (a * 2 ^ n)"
    by (simp only: of_nat_le_iff)
  then have lo: "2 ^ 52 / 2 ^ n \<le> ?x"
    using assms(1) by (simp add: field_simps)
  from assms(3) have "real (a * 2 ^ n) < real (2 ^ 53 * b)"
    by (simp only: of_nat_less_iff)
  then have hi: "?x < 2 ^ 53 / 2 ^ n"
    using assms(1) by (simp add: field_simps)
  have p: "(2::real) powr (of_int (52 - int n)) = 2 ^ 52 / 2 ^ n"
    "(2::real) powr (of_int (52 - int n) + 1) = 2 ^ 53 / 2 ^ n"
    by (simp_all add: powr_diff powr_add powr_realpow)
  from lo hi have k: "\<lfloor>log 2 ?x\<rfloor> = 52 - int n"
    by (intro exponent_unique) (simp_all only: p)
  have "(0::real) < 2 ^ 52 / 2 ^ n" by simp
  from this lo have pos: "0 < ?x" by (rule less_le_trans)
  then have "?x \<noteq> 0" by (rule less_imp_neq [THEN not_sym])
  moreover from pos have "\<bar>?x\<bar> = ?x" by (rule abs_of_pos)
  moreover from assms(4) have "max (52 - int n) (- 1022) - 52 = - int n" by simp
  ultimately have "binary64 ?x =
      of_int (roundTiesToEven (?x / 2 powr of_int (- int n))) * 2 powr of_int (- int n)"
    by (simp only: binary64_def k Let_def if_False)
  also have "2 powr of_int (- int n) = (1::real) / 2 ^ n"
    using pow2_neg [of n] by simp
  also have "?x / (1 / 2 ^ n) = real (a * 2 ^ n) / real b"
    by simp
  finally have "binary64 ?x =
      of_int (roundTiesToEven (real (a * 2 ^ n) / real b)) * (1 / 2 ^ n)" .
  then show ?thesis
    by (simp only: rte_ratio [OF assms(1)]) simp
qed

lemma binary64_half_int:
  assumes "0 < m" and "m < 2 ^ 53"
  shows "binary64 (of_int m / 2) = of_int m / 2"
proof -
  from assms(2) have "real_of_int m < 2 ^ 53" by simp
  then have "real_of_int m / 2 < 2 ^ 52" by simp
  moreover from assms(1) have "0 < real_of_int m / 2" by simp
  ultimately obtain n where
    b: "binary64 (of_int m / 2) = of_int (roundTiesToEven (of_int m / 2 * 2 ^ Suc n)) / 2 ^ Suc n"
    using binary64_fine by blast
  have "real_of_int m / 2 * 2 ^ Suc n = of_int (m * 2 ^ n)" by simp
  then have "roundTiesToEven (real_of_int m / 2 * 2 ^ Suc n) = m * 2 ^ n"
    by (simp only: rte_int)
  then show ?thesis
    unfolding b by simp
qed

lemma nat_div_split:
  assumes "0 < b"
  shows "real a / real b = real (a div b) + real (a mod b) / real b"
proof -
  have "real a = real (a div b) * real b + real (a mod b)"
    by (simp only: of_nat_mult [symmetric] of_nat_add [symmetric] div_mult_mod_eq)
  then have "real a / real b = (real (a div b) * real b + real (a mod b)) / real b"
    by (simp only:)
  also have "\<dots> = real (a div b) + real (a mod b) / real b"
    using assms by (simp add: add_divide_distrib)
  finally show ?thesis .
qed

lemma floor_stable:
  fixes p X c :: real
  assumes "of_int E + c \<le> X + 1 / 2" and "X + 1 / 2 \<le> of_int E + 1 - c" and "\<bar>p - X\<bar> < c"
  shows "\<lfloor>p + 1 / 2\<rfloor> = E"
proof -
  from assms have "of_int E \<le> p + 1 / 2" "p + 1 / 2 < of_int E + 1"
    by linarith+
  then show ?thesis by (simp add: floor_eq_iff)
qed


text \<open>
  Rounding a quotient of two counts to a double does not change what \<open>Math.round\<close>
  makes of it, as long as the counts stay below \<open>2 ^ 52\<close>.
\<close>

lemma Math_round_binary64:
  assumes "0 < b" and "a < 2 ^ 52" and "b < 2 ^ 52"
  shows "Math_round (binary64 (real a / real b)) = Math_round (real a / real b)"
proof (cases "a = 0")
  case True
  then show ?thesis by (simp add: binary64_zero)
next
  case False
  then have a: "0 < a" by simp
  let ?x = "real a / real b"
  let ?E = "int ((2 * a + b) div (2 * b))"
  define r where "r = (2 * a + b) mod (2 * b)"
  define g where "g = real r / real (2 * b)"
  from assms(1) have "?x + 1 / 2 = real (2 * a + b) / real (2 * b)"
    by (simp add: field_simps)
  also have "\<dots> = real ((2 * a + b) div (2 * b)) + real ((2 * a + b) mod (2 * b)) / real (2 * b)"
    using assms(1) by (intro nat_div_split) simp
  finally have x: "?x + 1 / 2 = of_int ?E + g"
    by (simp add: g_def r_def)
  have E: "Math_round ?x = ?E"
  proof -
    from assms(1) have "r < 2 * b" by (simp add: r_def)
    then have "real r < real (2 * b)" by (simp only: of_nat_less_iff)
    with assms(1) have "g < 1" "0 \<le> g" by (simp_all add: g_def)
    with x show ?thesis
      unfolding Math_round_def by (simp add: floor_eq_iff)
  qed
  from assms(2) have ra: "real a < 2 ^ 52"
    by (metis of_nat_less_iff of_nat_numeral of_nat_power)
  from assms(3) have rb: "real b < 2 ^ 52"
    by (metis of_nat_less_iff of_nat_numeral of_nat_power)
  from assms(1) have b1: "1 \<le> real b" by simp
  from b1 have "?x \<le> real a / 1"
    by (intro divide_left_mono) simp_all
  then have xa: "?x \<le> real a" by simp
  show ?thesis
  proof (cases "r = 0")
    case True
    then have "g = 0" by (simp add: g_def)
    with x have "?x = of_int ?E - 1 / 2" by linarith
    also have "\<dots> = of_int (2 * ?E - 1) / 2" by simp
    finally have h: "?x = of_int (2 * ?E - 1) / 2" .
    from a assms(1) have "0 < ?x" by simp
    with h have "0 < real_of_int (2 * ?E - 1) / 2" by (simp only:)
    then have "0 < real_of_int (2 * ?E - 1)" by simp
    then have p: "0 < 2 * ?E - 1" by (simp only: of_int_0_less_iff)
    from xa ra have "?x < 2 ^ 52" by linarith
    with h have "real_of_int (2 * ?E - 1) / 2 < 2 ^ 52" by (simp only:)
    then have "real_of_int (2 * ?E - 1) < real_of_int (2 ^ 53)" by simp
    then have "2 * ?E - 1 < 2 ^ 53" by (simp only: of_int_less_iff)
    from binary64_half_int [OF p this] show ?thesis
      by (simp only: h [symmetric])
  next
    case False
    define c where "c = 1 / real (2 * b)"
    from assms(1) have bpos: "0 < real (2 * b)" by simp
    from False have "1 \<le> r" by simp
    then have "real 1 \<le> real r" by (simp only: of_nat_le_iff)
    with bpos have lo: "c \<le> g"
      unfolding g_def c_def by (intro divide_right_mono) simp_all
    from assms(1) have "r < 2 * b" by (simp add: r_def)
    then have "r + 1 \<le> 2 * b" by simp
    then have "real (r + 1) \<le> real (2 * b)" by (simp only: of_nat_le_iff)
    then have "real r \<le> real (2 * b) - 1" by simp
    with bpos have "g \<le> (real (2 * b) - 1) / real (2 * b)"
      unfolding g_def by (intro divide_right_mono) simp_all
    also from bpos have "\<dots> = 1 - c"
      by (simp add: diff_divide_distrib c_def)
    finally have hi: "g \<le> 1 - c" .
    have "(2::real) powr (- 1022) \<le> 1 / 2 ^ 52"
      using pow2_neg [of 1022] by (simp add: field_simps power_increasing)
    also from rb bpos assms(1) have "1 / 2 ^ 52 \<le> 1 / real b"
      by (intro divide_left_mono) simp_all
    also from a assms(1) have "1 / real b \<le> ?x"
      by (intro divide_right_mono) simp_all
    finally have "\<bar>binary64 ?x - ?x\<bar> \<le> ?x * 2 powr (- 53)"
      by (rule binary64_error)
    also have "\<dots> = real a / 2 ^ 53 / real b"
    proof -
      have "(2::real) powr (- 53) = 1 / 2 ^ 53"
        using pow2_neg [of 53] by simp
      then show ?thesis by (simp only:) simp
    qed
    also from ra assms(1) have "\<dots> < 2 ^ 52 / 2 ^ 53 / real b"
      by (intro divide_strict_right_mono) simp_all
    also have "\<dots> = c"
      by (simp add: c_def)
    finally have e: "\<bar>binary64 ?x - ?x\<bar> < c" .
    have "\<lfloor>binary64 ?x + 1 / 2\<rfloor> = ?E"
    proof (rule floor_stable [where c = c and X = ?x])
      from lo show "of_int ?E + c \<le> ?x + 1 / 2" unfolding x by linarith
      from hi show "?x + 1 / 2 \<le> of_int ?E + 1 - c" unfolding x by linarith
      from e show "\<bar>binary64 ?x - ?x\<bar> < c" .
    qed
    with E show ?thesis by (simp only: Math_round_def)
  qed
qed

lemma roundDiv_double:
  assumes "0 < b" and "a < 2 ^ 52" and "b < 2 ^ 52"
  shows "nat (Math_round (binary64 (real a / real b))) = roundDiv a b"
  by (simp only: Math_round_binary64 [OF assms] roundDiv_def)


subsection \<open>The scaled size of a preview\<close>


lemma makePhotoPreviewBlob_dims:
  assumes "makePhotoPreviewBlob br file = Inr blob"
  shows "\<exists>w h. createImageBitmap br (file_bytes file) = Inr (w, h) \<and>
           (blob_width blob, blob_height blob) = scaledDims 1280 w h"
  using assms
  by (auto simp: makePhotoPreviewBlob_def Let_def split: sum.splits if_splits option.splits prod.splits)







subsection \<open>The percentage\<close>
















subsection \<open>The renderer is a function of the content\<close>

text \<open>
  C8. Two runs of the renderer on files with the same content, with decoders that agree,
  give previews of the same width and height, whatever the files' names and whatever the
  encoders return.
\<close>

theorem render_deterministic:
  assumes "file_bytes f1 = file_bytes f2"
    and "createImageBitmap br1 = createImageBitmap br2"
    and "makePhotoPreviewBlob br1 f1 = Inr b1"
    and "makePhotoPreviewBlob br2 f2 = Inr b2"
  shows "blob_width b1 = blob_width b2 \<and> blob_height b1 = blob_height b2"
proof -
  from makePhotoPreviewBlob_dims [OF assms(3)] obtain w h where
    1: "createImageBitmap br1 (file_bytes f1) = Inr (w, h)"
      "(blob_width b1, blob_height b1) = scaledDims 1280 w h"
    by blast
  from makePhotoPreviewBlob_dims [OF assms(4)] obtain w' h' where
    2: "createImageBitmap br2 (file_bytes f2) = Inr (w', h')"
      "(blob_width b2, blob_height b2) = scaledDims 1280 w' h'"
    by blast
  from 1(1) 2(1) assms(1,2) have "w = w' \<and> h = h'"
    by simp
  with 1(2) 2(2) show ?thesis
    by (metis prod.inject)
qed

theorem render_deterministic_witness:
  "file_bytes photoA = file_bytes photoCopy \<and>
   file_name photoA \<noteq> file_name photoCopy \<and>
   makePhotoPreviewBlob sampleBrowser photoA =
     Inr \<lparr>blob_size = 1048576, blob_width = 1280, blob_height = 960\<rparr> \<and>
   makePhotoPreviewBlob otherEncoder photoCopy =
     Inr \<lparr>blob_size = 2097152, blob_width = 1280, blob_height = 960\<rparr>"
proof -
  have a: "file_bytes photoA = file_bytes photoCopy"
    by (simp add: photoA_def photoCopy_def)
  have b: "createImageBitmap sampleBrowser = createImageBitmap otherEncoder"
    by (simp add: otherEncoder_def)
  have c: "makePhotoPreviewBlob sampleBrowser photoA =
     Inr \<lparr>blob_size = 1048576, blob_width = 1280, blob_height = 960\<rparr>"
    by (simp add: makePhotoPreviewBlob_def sampleBrowser_def photoA_def scaledDims_def
      roundDiv_nat)
  have d: "makePhotoPreviewBlob otherEncoder photoCopy =
     Inr \<lparr>blob_size = 2097152, blob_width = 1280, blob_height = 960\<rparr>"
    by (simp add: makePhotoPreviewBlob_def otherEncoder_def sampleBrowser_def photoCopy_def
      scaledDims_def roundDiv_nat)
  from render_deterministic [OF a b c d] a c d show ?thesis
    by (simp add: photoA_def photoCopy_def)
qed

subsection \<open>Shared albums\<close>











subsection \<open>The loop of the local scan\<close>

lemma foldl_bytes: "foldl (\<lambda>s (file, rel). s + file_size file) a photos = a + bytesOf photos"
  by (induction photos arbitrary: a) (auto simp: bytesOf_def)

lemma scanItem_fails:
  assumes "\<not> renders br (file, rel)"
  shows "\<exists>e. makePhotoPreviewBlob br file = Inl e \<and> scanItem br n t file v app = Inl e"
  using assms by (auto simp: renders_def scanItem_def split: sum.splits)

lemma scanItem_renders:
  assumes "renders br (file, rel)"
  shows "\<exists>v' app'. scanItem br n t file v app = Inr (v', app') \<and>
           v_doneFiles v' = v_doneFiles v + 1 \<and>
           v_doneBytes v' = v_doneBytes v + file_size file \<and>
           v_originalBytes v' = v_originalBytes v + file_size file \<and>
           v_previewBytes v' = v_previewBytes v + previewSize br (file, rel) \<and>
           statsSeen app' = statsSeen app @ [statsAfter br n t v [(file, rel)]] \<and>
           scanStats app' = statsAfter br n t v [(file, rel)] \<and>
           scanProgress app' = pct (v_doneBytes v + file_size file) t \<and>
           albums app' = albums app \<and> alerts app' = alerts app \<and>
           consoleErrors app' = consoleErrors app \<and> revokedUrls app' = revokedUrls app \<and>
           quotaBytes app' = quotaBytes app \<and> scanRunning app' = scanRunning app \<and>
           nextUrl app' = Suc (nextUrl app)"
  using assms
  by (auto simp: renders_def previewSize_def scanItem_def Let_def setScanStats_def
      statsAfter_def bytesOf_def split: sum.splits)

lemma statsAfter_step:
  assumes "v_doneFiles v' = v_doneFiles v + 1"
    and "v_doneBytes v' = v_doneBytes v + file_size (fst p)"
    and "v_originalBytes v' = v_originalBytes v + file_size (fst p)"
    and "v_previewBytes v' = v_previewBytes v + previewSize br p"
  shows "statsAfter br n t v' finished = statsAfter br n t v (p # finished)"
  using assms by (simp add: statsAfter_def bytesOf_def)

lemma upt_shift:
  "map f [Suc 0..<Suc (Suc m)] = f (Suc 0) # map (\<lambda>k. f (Suc k)) [Suc 0..<Suc m]"
proof -
  have "[Suc 0..<Suc (Suc m)] = Suc 0 # map Suc [Suc 0..<Suc m]"
    by (simp add: upt_conv_Cons map_Suc_upt del: upt_Suc)
  then show ?thesis
    by (simp add: comp_def del: upt_Suc)
qed

lemma take_shift:
  "map (\<lambda>k. g (take k (p # xs))) [1..<Suc (Suc m)] =
     g [p] # map (\<lambda>k. g (p # take k xs)) [1..<Suc m]"
  using upt_shift [of "\<lambda>k. g (take k (p # xs))" m] by simp

lemma scanLoop_statsSeen:
  "statsSeen (snd (scanLoop br n t photos v app)) =
     statsSeen app @ map (\<lambda>k. statsAfter br n t v (take k photos))
                        [1..<Suc (length (takeWhile (renders br) photos))]"
proof (induction photos arbitrary: v app)
  case Nil
  show ?case by simp
next
  case (Cons p photos)
  obtain f rel where p: "p = (f, rel)" by (cases p)
  show ?case
  proof (cases "renders br p")
    case False
    with scanItem_fails [of br f rel n t v app] show ?thesis
      by (auto simp: p)
  next
    case True
    from scanItem_renders [OF True [unfolded p], of n t v app] obtain v' app' where
      s: "scanItem br n t f v app = Inr (v', app')"
      and v: "v_doneFiles v' = v_doneFiles v + 1"
        "v_doneBytes v' = v_doneBytes v + file_size (fst p)"
        "v_originalBytes v' = v_originalBytes v + file_size (fst p)"
        "v_previewBytes v' = v_previewBytes v + previewSize br p"
      and a: "statsSeen app' = statsSeen app @ [statsAfter br n t v [p]]"
      unfolding p by auto
    have "statsSeen (snd (scanLoop br n t (p # photos) v app)) =
            statsSeen (snd (scanLoop br n t photos v' app'))"
      by (simp add: p s)
    also have "\<dots> = statsSeen app' @ map (\<lambda>k. statsAfter br n t v' (take k photos))
                        [1..<Suc (length (takeWhile (renders br) photos))]"
      by (rule Cons.IH)
    also have "\<dots> = statsSeen app @ statsAfter br n t v [p] #
                 map (\<lambda>k. statsAfter br n t v (p # take k photos))
                        [1..<Suc (length (takeWhile (renders br) photos))]"
      by (simp add: a statsAfter_step [OF v] del: upt_Suc)
    also have "\<dots> = statsSeen app @ map (\<lambda>k. statsAfter br n t v (take k (p # photos)))
                        [1..<Suc (length (takeWhile (renders br) (p # photos)))]"
      using True take_shift [of "statsAfter br n t v" p photos]
      by (simp del: upt_Suc)
    finally show ?thesis .
  qed
qed

lemma scanLoop_frame:
  "albums (snd (scanLoop br n t photos v app)) = albums app \<and>
   alerts (snd (scanLoop br n t photos v app)) = alerts app \<and>
   consoleErrors (snd (scanLoop br n t photos v app)) = consoleErrors app \<and>
   revokedUrls (snd (scanLoop br n t photos v app)) = revokedUrls app \<and>
   quotaBytes (snd (scanLoop br n t photos v app)) = quotaBytes app \<and>
   scanRunning (snd (scanLoop br n t photos v app)) = scanRunning app"
proof (induction photos arbitrary: v app)
  case Nil
  show ?case by simp
next
  case (Cons p photos)
  obtain f rel where p: "p = (f, rel)" by (cases p)
  show ?case
  proof (cases "renders br p")
    case False
    with scanItem_fails [of br f rel n t v app] show ?thesis
      by (auto simp: p)
  next
    case True
    from scanItem_renders [OF True [unfolded p], of n t v app] obtain v' app' where
      "scanItem br n t f v app = Inr (v', app')"
      and "albums app' = albums app" "alerts app' = alerts app"
        "consoleErrors app' = consoleErrors app" "revokedUrls app' = revokedUrls app"
        "quotaBytes app' = quotaBytes app" "scanRunning app' = scanRunning app"
      by auto
    with Cons.IH [of v' app'] show ?thesis
      by (simp add: p)
  qed
qed

lemma scanLoop_completes:
  assumes "\<forall>p \<in> set photos. renders br p"
  shows "\<exists>v' app'. scanLoop br n t photos v app = (Inr v', app') \<and>
           v_doneFiles v' = v_doneFiles v + length photos \<and>
           v_doneBytes v' = v_doneBytes v + bytesOf photos \<and>
           v_originalBytes v' = v_originalBytes v + bytesOf photos \<and>
           v_previewBytes v' = v_previewBytes v + sum_list (map (previewSize br) photos)"
  using assms
proof (induction photos arbitrary: v app)
  case Nil
  show ?case by (simp add: bytesOf_def)
next
  case (Cons p photos)
  obtain f rel where p: "p = (f, rel)" by (cases p)
  from Cons.prems have "renders br (f, rel)" by (simp add: p)
  from scanItem_renders [OF this, of n t v app] obtain v' app' where
    s: "scanItem br n t f v app = Inr (v', app')"
    and v: "v_doneFiles v' = v_doneFiles v + 1"
      "v_doneBytes v' = v_doneBytes v + file_size f"
      "v_originalBytes v' = v_originalBytes v + file_size f"
      "v_previewBytes v' = v_previewBytes v + previewSize br (f, rel)"
    by auto
  from Cons.prems Cons.IH [of v' app'] show ?case
    by (auto simp: p s v bytesOf_def)
qed

lemma scanLoop_append:
  "scanLoop br n t (xs @ ys) v app =
     (case scanLoop br n t xs v app of
        (Inl e, app') \<Rightarrow> (Inl e, app')
      | (Inr v', app') \<Rightarrow> scanLoop br n t ys v' app')"
proof (induction xs arbitrary: v app)
  case Nil
  show ?case by simp
next
  case (Cons p xs)
  obtain f rel where p: "p = (f, rel)" by (cases p)
  show ?case
    by (cases "scanItem br n t f v app") (auto simp: p Cons.IH)
qed

lemma scanLoop_stops:
  assumes "\<forall>p \<in> set before. renders br p"
    and "makePhotoPreviewBlob br (fst bad) = Inl e"
  shows "scanLoop br n t (before @ bad # after) v app =
           (Inl e, snd (scanLoop br n t before v app))"
proof -
  from scanLoop_completes [OF assms(1), of n t v app] obtain v' app' where
    b: "scanLoop br n t before v app = (Inr v', app')"
    by blast
  obtain f rel where p: "bad = (f, rel)" by (cases bad)
  from assms(2) have "scanItem br n t f v' app' = Inl e"
    by (simp add: scanItem_def p)
  then show ?thesis
    by (simp add: scanLoop_append b p)
qed

lemma scanLoop_prefix:
  "snd (scanLoop br n t photos v app) =
     snd (scanLoop br n t (takeWhile (renders br) photos) v app)"
proof (cases "dropWhile (renders br) photos")
  case Nil
  then have "takeWhile (renders br) photos = photos"
    by (metis append_Nil2 takeWhile_dropWhile_id)
  then show ?thesis by (simp only:)
next
  case (Cons bad after)
  then have "\<not> renders br bad"
    by (metis hd_dropWhile list.distinct(1) list.sel(1))
  then obtain e where e: "makePhotoPreviewBlob br (fst bad) = Inl e"
    by (auto simp: renders_def split: sum.splits)
  have "\<forall>p \<in> set (takeWhile (renders br) photos). renders br p"
    by (auto dest: set_takeWhileD)
  from scanLoop_stops [OF this e, of n t after v app] Cons show ?thesis
    by (metis snd_conv takeWhile_dropWhile_id)
qed

subsection \<open>The scan as a whole\<close>

lemma scan_unfold:
  "scanLocalFolderPhotosOnly br picker A app =
     (scanCatch (fst (scanBody br picker A (scanStart A app)))
                (snd (scanBody br picker A (scanStart A app))))\<lparr>scanRunning := False\<rparr>"
  by (simp add: scanLocalFolderPhotosOnly_def scanStart_def Let_def split: prod.splits)

lemma scanStart_fields:
  "albums (scanStart A app) =
     map (\<lambda>a. if local_id a \<noteq> A then a else a\<lparr>local_previewUrls := []\<rparr>) (albums app)"
  "revokedUrls (scanStart A app) = revokedUrls app @
     concat (map (\<lambda>a. if local_id a \<noteq> A then [] else map preview_url (local_previewUrls a))
               (albums app))"
  "statsSeen (scanStart A app) = statsSeen app @ [zeroStats]"
  "scanStats (scanStart A app) = zeroStats"
  "alerts (scanStart A app) = alerts app"
  "consoleErrors (scanStart A app) = consoleErrors app"
  "quotaBytes (scanStart A app) = quotaBytes app"
  "nextUrl (scanStart A app) = nextUrl app"
  by (simp_all add: scanStart_def revokeAlbumPreviews_def setScanStats_def)

lemma scanCatch_fields:
  "albums (scanCatch thrown app) = albums app"
  "revokedUrls (scanCatch thrown app) = revokedUrls app"
  "statsSeen (scanCatch thrown app) = statsSeen app"
  "scanStats (scanCatch thrown app) = scanStats app"
  "quotaBytes (scanCatch thrown app) = quotaBytes app"
  "nextUrl (scanCatch thrown app) = nextUrl app"
  by (simp_all add: scanCatch_def alert_def Let_def split: option.splits)

lemma scanCatch_alerts:
  "alerts (scanCatch thrown app) =
     (case thrown of
        None \<Rightarrow> alerts app
      | Some e \<Rightarrow>
          if err_name e \<noteq> ''AbortError''
          then alerts app @ [Message (if err_message e \<noteq> [] then err_message e else ''Scan failed'')]
          else alerts app)"
  by (simp add: scanCatch_def alert_def Let_def split: option.splits)

lemma scanCatch_console:
  "consoleErrors (scanCatch thrown app) =
     (case thrown of None \<Rightarrow> consoleErrors app | Some e \<Rightarrow> consoleErrors app @ [e])"
  by (simp add: scanCatch_def alert_def Let_def split: option.splits)

lemma scanBody_cases:
  "scanBody br None A app =
     (None, alert (Message ''Folder picking needs Chrome/Edge (File System Access API).'') app)"
  "scanBody br (Some (Inl e)) A app = (Some e, app)"
  "readDirHandle d = Inl e \<Longrightarrow> scanBody br (Some (Inr d)) A app = (Some e, app)"
  "readDirHandle d = Inr entries \<Longrightarrow> bytesOf (photosOf entries) > quotaBytes app \<Longrightarrow>
     scanBody br (Some (Inr d)) A app =
       (None, alert (QuotaExceeded (bytesOf (photosOf entries)) (quotaBytes app)) app)"
  "readDirHandle d = Inr entries \<Longrightarrow> bytesOf (photosOf entries) \<le> quotaBytes app \<Longrightarrow>
     scanBody br (Some (Inr d)) A app =
       (case scanLoop br (length (photosOf entries)) (bytesOf (photosOf entries)) (photosOf entries)
               startVars
               (setScanStats ((scanStats app)\<lparr>totalFiles := length (photosOf entries),
                                              totalBytes := bytesOf (photosOf entries)\<rparr>) app) of
          (Inl e, app2) \<Rightarrow> (Some e, app2)
        | (Inr v, app2) \<Rightarrow>
            (None,
             app2\<lparr>albums :=
               map (\<lambda>a. if local_id a = A
                         then a\<lparr>local_originalBytes := v_originalBytes v,
                                local_previewBytes := v_previewBytes v,
                                local_itemsScanned := length (photosOf entries),
                                local_previewUrls := v_previewUrls v\<rparr>
                         else a) (albums app2)\<rparr>))"
  unfolding photosOf_def startVars_def
  by (simp_all add: scanBody_def foldl_bytes Let_def)

lemma scanBody_albums:
  "\<exists>g. albums (snd (scanBody br picker A app)) = map g (albums app) \<and>
       (\<forall>a. local_id (g a) = local_id a) \<and> (\<forall>a. local_id a \<noteq> A \<longrightarrow> g a = a)"
proof -
  have same: ?thesis if "albums (snd (scanBody br picker A app)) = albums app"
  proof -
    from that have "albums (snd (scanBody br picker A app)) = map (\<lambda>a. a) (albums app)"
      by simp
    then show ?thesis by (intro exI [of _ "\<lambda>a. a"]) simp
  qed
  show ?thesis
  proof (cases picker)
    case None
    then show ?thesis by (intro same) (simp add: scanBody_cases alert_def)
  next
    case (Some r)
    show ?thesis
    proof (cases r)
      case (Inl e)
      with Some show ?thesis by (intro same) (simp add: scanBody_cases)
    next
      case (Inr d)
      show ?thesis
      proof (cases "readDirHandle d")
        case (Inl e)
        with Some \<open>r = Inr d\<close> show ?thesis by (intro same) (simp add: scanBody_cases)
      next
        case rd: (Inr entries)
        show ?thesis
        proof (cases "bytesOf (photosOf entries) > quotaBytes app")
          case True
          with Some \<open>r = Inr d\<close> rd show ?thesis
            by (intro same) (simp add: scanBody_cases alert_def)
        next
          case False
          let ?app1 = "setScanStats ((scanStats app)\<lparr>totalFiles := length (photosOf entries),
                                                totalBytes := bytesOf (photosOf entries)\<rparr>) app"
          let ?run = "scanLoop br (length (photosOf entries)) (bytesOf (photosOf entries))
                        (photosOf entries) startVars ?app1"
          have fr: "albums (snd ?run) = albums app"
            using scanLoop_frame [of br "length (photosOf entries)" "bytesOf (photosOf entries)"
                "photosOf entries" startVars ?app1]
            by (simp add: setScanStats_def)
          from False have le: "bytesOf (photosOf entries) \<le> quotaBytes app" by simp
          show ?thesis
          proof (cases ?run)
            case (Pair res app2)
            with fr have a2: "albums app2 = albums app" by simp
            show ?thesis
            proof (cases res)
              case (Inl e)
              with Pair a2 have "albums (snd (scanBody br picker A app)) = albums app"
                unfolding Some \<open>r = Inr d\<close> scanBody_cases(5) [OF rd le] by simp
              then show ?thesis by (rule same)
            next
              case (Inr v)
              let ?g = "\<lambda>a. if local_id a = A
                    then a\<lparr>local_originalBytes := v_originalBytes v,
                           local_previewBytes := v_previewBytes v,
                           local_itemsScanned := length (photosOf entries),
                           local_previewUrls := v_previewUrls v\<rparr>
                    else a"
              from Inr Pair a2
              have "albums (snd (scanBody br picker A app)) = map ?g (albums app)"
                unfolding Some \<open>r = Inr d\<close> scanBody_cases(5) [OF rd le] by simp
              then show ?thesis
                by (intro exI [of _ ?g]) simp
            qed
          qed
        qed
      qed
    qed
  qed
qed

lemma scanBody_revoked:
  "revokedUrls (snd (scanBody br picker A app)) = revokedUrls app"
proof (cases picker)
  case None
  then show ?thesis by (simp add: scanBody_cases alert_def)
next
  case (Some r)
  show ?thesis
  proof (cases r)
    case (Inl e)
    with Some show ?thesis by (simp add: scanBody_cases)
  next
    case (Inr d)
    show ?thesis
    proof (cases "readDirHandle d")
      case (Inl e)
      with Some \<open>r = Inr d\<close> show ?thesis by (simp add: scanBody_cases)
    next
      case rd: (Inr entries)
      show ?thesis
      proof (cases "bytesOf (photosOf entries) > quotaBytes app")
        case True
        with Some \<open>r = Inr d\<close> rd show ?thesis by (simp add: scanBody_cases alert_def)
      next
        case False
        let ?app1 = "setScanStats ((scanStats app)\<lparr>totalFiles := length (photosOf entries),
                                              totalBytes := bytesOf (photosOf entries)\<rparr>) app"
        let ?run = "scanLoop br (length (photosOf entries)) (bytesOf (photosOf entries))
                      (photosOf entries) startVars ?app1"
        have fr: "revokedUrls (snd ?run) = revokedUrls app"
          using scanLoop_frame [of br "length (photosOf entries)" "bytesOf (photosOf entries)"
              "photosOf entries" startVars ?app1]
          by (simp add: setScanStats_def)
        from False have le: "bytesOf (photosOf entries) \<le> quotaBytes app" by simp
        show ?thesis
        proof (cases ?run)
          case (Pair res app2)
          with fr have "revokedUrls app2 = revokedUrls app" by simp
          with Pair show ?thesis
            unfolding Some \<open>r = Inr d\<close> scanBody_cases(5) [OF rd le]
            by (cases res) auto
        qed
      qed
    qed
  qed
qed

lemma in_concat: "xs \<in> set xss \<Longrightarrow> set xs \<subseteq> set (concat xss)"
  by auto

lemma scanStart_revokes:
  assumes "a \<in> set (albums app)" and "local_id a = A"
  shows "set (map preview_url (local_previewUrls a)) \<subseteq> set (revokedUrls (scanStart A app))"
proof -
  define f :: "LocalAlbum \<Rightarrow> nat list" where "f = (\<lambda>a. if local_id a \<noteq> A then [] else map preview_url (local_previewUrls a))"
  from assms(1) have "f a \<in> set (map f (albums app))"
    by (intro imageI [of a "set (albums app)", folded set_map])
  then have "set (f a) \<subseteq> set (concat (map f (albums app)))"
    by (rule in_concat)
  moreover from assms(2) have "f a = map preview_url (local_previewUrls a)"
    by (simp add: f_def)
  moreover have "revokedUrls (scanStart A app) = revokedUrls app @ concat (map f (albums app))"
    unfolding f_def by (rule scanStart_fields)
  ultimately show ?thesis
    by auto
qed

lemma scanStart_resets:
  assumes "a \<in> set (albums (scanStart A app))" and "local_id a = A"
  shows "local_previewUrls a = []"
proof -
  from assms(1) obtain b where "b \<in> set (albums app)"
    and "a = (if local_id b \<noteq> A then b else b\<lparr>local_previewUrls := []\<rparr>)"
    unfolding scanStart_fields set_map by (rule imageE)
  with assms(2) show ?thesis
    by (cases "local_id b \<noteq> A") simp_all
qed

lemma scan_albums_revoked:
  "albums (scanLocalFolderPhotosOnly br picker A app) =
     albums (snd (scanBody br picker A (scanStart A app)))"
  "revokedUrls (scanLocalFolderPhotosOnly br picker A app) =
     revokedUrls (snd (scanBody br picker A (scanStart A app)))"
  by (simp_all add: scan_unfold scanCatch_fields)

text \<open>
  C9. A scan for album \<open>A\<close> keeps the list of albums and their ids, and leaves every
  album whose id is not \<open>A\<close> as it was. The scan's body starts from the state
  \<open>scanStart A app\<close>, in which the preview list of \<open>A\<close> is empty and every URL that
  was stored in it is revoked; nothing else is revoked later in the scan.
\<close>

theorem scan_touches_one_album:
  "map local_id (albums (scanLocalFolderPhotosOnly br picker A app)) = map local_id (albums app) \<and>
   (\<forall>i < length (albums app).
      local_id (albums app ! i) \<noteq> A \<longrightarrow>
      albums (scanLocalFolderPhotosOnly br picker A app) ! i = albums app ! i) \<and>
   scanLocalFolderPhotosOnly br picker A app =
     (scanCatch (fst (scanBody br picker A (scanStart A app)))
                (snd (scanBody br picker A (scanStart A app))))\<lparr>scanRunning := False\<rparr> \<and>
   (\<forall>a \<in> set (albums (scanStart A app)). local_id a = A \<longrightarrow> local_previewUrls a = []) \<and>
   (\<forall>a \<in> set (albums app). local_id a = A \<longrightarrow>
      set (map preview_url (local_previewUrls a)) \<subseteq> set (revokedUrls (scanStart A app))) \<and>
   revokedUrls (scanLocalFolderPhotosOnly br picker A app) = revokedUrls (scanStart A app)"
proof -
  let ?b = "scanBody br picker A (scanStart A app)"
  let ?r = "\<lambda>a. if local_id a \<noteq> A then a else a\<lparr>local_previewUrls := []\<rparr>"
  from scanBody_albums [of br picker A "scanStart A app"]
  obtain h where h: "albums (snd ?b) = map h (albums (scanStart A app))"
    and hid: "\<And>a. local_id (h a) = local_id a"
    and hframe: "\<And>a. local_id a \<noteq> A \<Longrightarrow> h a = a"
    by blast
  define g where "g = h \<circ> ?r"
  have g: "albums (scanLocalFolderPhotosOnly br picker A app) = map g (albums app)"
    by (simp only: scan_albums_revoked h scanStart_fields map_map g_def)
  have gid: "local_id (g a) = local_id a" for a
    by (simp add: g_def hid)
  have gframe: "g a = a" if "local_id a \<noteq> A" for a
    using that by (simp add: g_def hframe)
  have ids: "map local_id (albums (scanLocalFolderPhotosOnly br picker A app)) =
      map local_id (albums app)"
    by (simp add: g gid comp_def)
  have frame: "\<forall>i < length (albums app).
      local_id (albums app ! i) \<noteq> A \<longrightarrow>
      albums (scanLocalFolderPhotosOnly br picker A app) ! i = albums app ! i"
    by (simp add: g gframe)
  have rv: "revokedUrls (scanLocalFolderPhotosOnly br picker A app) = revokedUrls (scanStart A app)"
    by (simp only: scan_albums_revoked scanBody_revoked)
  from ids frame scan_unfold [of br picker A app] rv show ?thesis
    using scanStart_resets [of _ A app] scanStart_revokes [of _ app A]
    by (intro conjI ballI impI)
qed

theorem scan_touches_one_album_witness:
  "albums (scanLocalFolderPhotosOnly sampleBrowser (Some (Inr beachDir)) ''L1'' sampleApp) ! 1 = alpsLocal \<and>
   revokedUrls (scanLocalFolderPhotosOnly sampleBrowser (Some (Inr beachDir)) ''L1'' sampleApp) = [3] \<and>
   map local_id (albums (scanLocalFolderPhotosOnly sampleBrowser (Some (Inr beachDir)) ''L1'' sampleApp)) = [''L1'', ''L2'']"
proof -
  let ?app' = "scanLocalFolderPhotosOnly sampleBrowser (Some (Inr beachDir)) ''L1'' sampleApp"
  note t = scan_touches_one_album [of sampleBrowser "Some (Inr beachDir)" "''L1''" sampleApp]
  from t have "\<forall>i < length (albums sampleApp).
      local_id (albums sampleApp ! i) \<noteq> ''L1'' \<longrightarrow> albums ?app' ! i = albums sampleApp ! i"
    by blast
  then have "local_id (albums sampleApp ! 1) \<noteq> ''L1'' \<longrightarrow> albums ?app' ! 1 = albums sampleApp ! 1"
    by (simp add: sampleApp_def)
  then have a: "albums ?app' ! 1 = alpsLocal"
    by (simp add: sampleApp_def alpsLocal_def)
  from t have "revokedUrls ?app' = revokedUrls (scanStart ''L1'' sampleApp)"
    by blast
  then have b: "revokedUrls ?app' = [3]"
    by (simp add: scanStart_fields sampleApp_def goaLocal_def alpsLocal_def)
  from t have "map local_id (albums ?app') = map local_id (albums sampleApp)"
    by blast
  then have c: "map local_id (albums ?app') = [''L1'', ''L2'']"
    by (simp add: sampleApp_def goaLocal_def alpsLocal_def)
  from a b c show ?thesis by blast
qed



subsection \<open>The upload loop of the album page\<close>

lemma uploadItem_calls:
  assumes "uploadItem cloud A f dn st = (thrown, dn', st')"
  shows "(reserveCalls st' = reserveCalls st \<and> quota (supabase st') = quota (supabase st)) \<or>
         (\<exists>blob. makePreviewBlob cloud f 640 (8 / 10) = Inr blob \<and>
            reserveCalls st' = reserveCalls st @ [(f, blob_size blob)] \<and>
            quota (supabase st') =
              snd (reserve_quota_rpc cloud (quota (supabase st)) (blob_size blob)))"
  using assms
  by (auto simp: uploadItem_def Let_def setProg_def
      split: sum.splits option.splits prod.splits if_splits)

lemma uploadItem_progress:
  assumes "uploadItem cloud A f dn st = (thrown, dn', st')"
  shows "(case thrown of
            None \<Rightarrow>
              dn' = (fst dn + file_size f, snd dn + 1) \<and>
              prog st' = (prog st)\<lparr>doneFiles := snd dn + 1, doneBytes := fst dn + file_size f\<rparr> \<and>
              progSeen st' = progSeen st @ [prog st']
          | Some e \<Rightarrow> dn' = dn \<and> prog st' = prog st \<and> progSeen st' = progSeen st)"
  using assms
  by (auto simp: uploadItem_def Let_def setProg_def
      split: sum.splits option.splits prod.splits if_splits)

lemma uploadItem_frame:
  assumes "uploadItem cloud A f dn st = (thrown, dn', st')"
  shows "msg st' = msg st \<and> busy st' = busy st \<and> myRole st' = myRole st"
  using assms
  by (auto simp: uploadItem_def Let_def setProg_def
      split: sum.splits option.splits prod.splits if_splits)

lemma uploadLoop_append:
  "uploadLoop cloud A (xs @ ys) dn st =
     (case uploadLoop cloud A xs dn st of
        (Some e, dn', st') \<Rightarrow> (Some e, dn', st')
      | (None, dn', st') \<Rightarrow> uploadLoop cloud A ys dn' st')"
proof (induction xs arbitrary: dn st)
  case Nil
  show ?case by simp
next
  case (Cons f xs)
  obtain t1 d1 st1 where i: "uploadItem cloud A f dn st = (t1, d1, st1)"
    by (cases "uploadItem cloud A f dn st") auto
  show ?case
    by (cases t1) (simp_all add: i Cons.IH)
qed

lemma uploadLoop_stops:
  assumes "uploadLoop cloud A before dn st = (None, done1, st1)"
    and "uploadItem cloud A bad done1 st1 = (Some e, done2, st2)"
  shows "uploadLoop cloud A (before @ bad # after) dn st = (Some e, done2, st2)"
  using assms by (simp add: uploadLoop_append)

lemma uploadLoop_calls:
  assumes "uploadLoop cloud A files dn st = (thrown, dn', st')"
  shows "\<exists>new. reserveCalls st' = reserveCalls st @ new \<and>
           subseq (map fst new) files \<and>
           (\<forall>(f, d) \<in> set new.
              \<exists>blob. makePreviewBlob cloud f 640 (8 / 10) = Inr blob \<and> d = blob_size blob) \<and>
           quota (supabase st') =
             foldl (\<lambda>q d. snd (reserve_quota_rpc cloud q d)) (quota (supabase st)) (map snd new)"
  using assms
proof (induction files arbitrary: dn st)
  case Nil
  then show ?case by simp
next
  case (Cons f files)
  obtain t1 d1 st1 where i: "uploadItem cloud A f dn st = (t1, d1, st1)"
    by (cases "uploadItem cloud A f dn st") auto
  from uploadItem_calls [OF i] obtain new1 where
    n1: "reserveCalls st1 = reserveCalls st @ new1"
    and s1: "subseq (map fst new1) [f]"
    and b1: "\<forall>(g, d) \<in> set new1.
              \<exists>blob. makePreviewBlob cloud g 640 (8 / 10) = Inr blob \<and> d = blob_size blob"
    and q1: "quota (supabase st1) =
             foldl (\<lambda>q d. snd (reserve_quota_rpc cloud q d)) (quota (supabase st)) (map snd new1)"
  proof (elim disjE exE conjE)
    assume "reserveCalls st1 = reserveCalls st" "quota (supabase st1) = quota (supabase st)"
    then show thesis by (intro that [of "[]"]) simp_all
  next
    fix blob
    assume "makePreviewBlob cloud f 640 (8 / 10) = Inr blob"
      "reserveCalls st1 = reserveCalls st @ [(f, blob_size blob)]"
      "quota (supabase st1) = snd (reserve_quota_rpc cloud (quota (supabase st)) (blob_size blob))"
    then show thesis by (intro that [of "[(f, blob_size blob)]"]) simp_all
  qed
  show ?case
  proof (cases t1)
    case (Some e)
    with Cons.prems i have "st' = st1" by simp
    moreover from s1 have "subseq (map fst new1) ([f] @ files)"
      by (rule list_emb_prefix)
    then have "subseq (map fst new1) (f # files)"
      by simp
    ultimately show ?thesis
      using n1 b1 q1 by (intro exI [of _ new1]) simp
  next
    case None
    with Cons.prems i have "uploadLoop cloud A files d1 st1 = (thrown, dn', st')"
      by simp
    from Cons.IH [OF this] obtain new2 where
      n2: "reserveCalls st' = reserveCalls st1 @ new2"
      and s2: "subseq (map fst new2) files"
      and b2: "\<forall>(g, d) \<in> set new2.
              \<exists>blob. makePreviewBlob cloud g 640 (8 / 10) = Inr blob \<and> d = blob_size blob"
      and q2: "quota (supabase st') =
             foldl (\<lambda>q d. snd (reserve_quota_rpc cloud q d)) (quota (supabase st1)) (map snd new2)"
      by (elim exE conjE)
    from s1 s2 have "subseq (map fst new1 @ map fst new2) ([f] @ files)"
      by (rule list_emb_append_mono)
    then have "subseq (map fst (new1 @ new2)) (f # files)"
      by simp
    moreover have "reserveCalls st' = reserveCalls st @ (new1 @ new2)"
      by (simp add: n1 n2)
    moreover have "\<forall>(g, d) \<in> set (new1 @ new2).
              \<exists>blob. makePreviewBlob cloud g 640 (8 / 10) = Inr blob \<and> d = blob_size blob"
      using b1 b2 by auto
    moreover have "quota (supabase st') =
             foldl (\<lambda>q d. snd (reserve_quota_rpc cloud q d)) (quota (supabase st))
               (map snd (new1 @ new2))"
      by (simp add: q1 q2)
    ultimately show ?thesis by (intro exI [of _ "new1 @ new2"] conjI)
  qed
qed

lemma uploadLoop_frame:
  assumes "uploadLoop cloud A files dn st = (thrown, dn', st')"
  shows "msg st' = msg st \<and> busy st' = busy st \<and> myRole st' = myRole st"
  using assms
proof (induction files arbitrary: dn st)
  case Nil
  then show ?case by simp
next
  case (Cons f files)
  obtain t1 d1 st1 where i: "uploadItem cloud A f dn st = (t1, d1, st1)"
    by (cases "uploadItem cloud A f dn st") auto
  show ?case
  proof (cases t1)
    case (Some e)
    with Cons.prems i uploadItem_frame [OF i] show ?thesis by simp
  next
    case None
    with Cons.prems i have "uploadLoop cloud A files d1 st1 = (thrown, dn', st')"
      by simp
    from Cons.IH [OF this] uploadItem_frame [OF i] show ?thesis by simp
  qed
qed

lemma progAfter_step:
  assumes "p1 = p\<lparr>doneFiles := snd dn + 1, doneBytes := fst dn + file_size f\<rparr>"
    and "d1 = (fst dn + file_size f, snd dn + 1)"
  shows "progAfter p1 d1 finished = progAfter p dn (f # finished)"
  using assms by (simp add: progAfter_def)

lemma uploadLoop_progress:
  assumes "uploadLoop cloud A files dn st = (thrown, dn', st')"
  shows "\<exists>m \<le> length files.
           (thrown = None \<longleftrightarrow> m = length files) \<and>
           dn' = (fst dn + sum_list (map file_size (take m files)), snd dn + m) \<and>
           progSeen st' = progSeen st @ map (\<lambda>k. progAfter (prog st) dn (take k files)) [1..<Suc m] \<and>
           prog st' = (if m = 0 then prog st else progAfter (prog st) dn (take m files))"
  using assms
proof (induction files arbitrary: dn st)
  case Nil
  then show ?case by simp
next
  case (Cons f files)
  obtain t1 d1 st1 where i: "uploadItem cloud A f dn st = (t1, d1, st1)"
    by (cases "uploadItem cloud A f dn st") auto
  show ?case
  proof (cases t1)
    case (Some e)
    with uploadItem_progress [OF i] Cons.prems i show ?thesis
      by (intro exI [of _ 0]) auto
  next
    case None
    with uploadItem_progress [OF i] have d1: "d1 = (fst dn + file_size f, snd dn + 1)"
      and p1: "prog st1 = (prog st)\<lparr>doneFiles := snd dn + 1, doneBytes := fst dn + file_size f\<rparr>"
      and s1: "progSeen st1 = progSeen st @ [prog st1]"
      by simp_all
    note step = progAfter_step [OF p1 d1]
    from None Cons.prems i have "uploadLoop cloud A files d1 st1 = (thrown, dn', st')"
      by simp
    from Cons.IH [OF this] obtain m where m: "m \<le> length files"
      and t: "thrown = None \<longleftrightarrow> m = length files"
      and d: "dn' = (fst d1 + sum_list (map file_size (take m files)), snd d1 + m)"
      and s: "progSeen st' = progSeen st1 @ map (\<lambda>k. progAfter (prog st1) d1 (take k files)) [1..<Suc m]"
      and p: "prog st' = (if m = 0 then prog st1 else progAfter (prog st1) d1 (take m files))"
      by (elim exE conjE)
    have one: "prog st1 = progAfter (prog st) dn [f]"
      by (simp add: p1 progAfter_def)
    have "progSeen st' = progSeen st @ prog st1 #
            map (\<lambda>k. progAfter (prog st) dn (f # take k files)) [1..<Suc m]"
      by (simp only: s s1 step append_assoc append_Cons append_Nil)
    also have "\<dots> = progSeen st @ progAfter (prog st) dn [f] #
            map (\<lambda>k. progAfter (prog st) dn (f # take k files)) [1..<Suc m]"
      by (simp only: one)
    also have "\<dots> = progSeen st @ map (\<lambda>k. progAfter (prog st) dn (take k (f # files))) [1..<Suc (Suc m)]"
      by (simp only: take_shift [of "progAfter (prog st) dn" f files m])
    finally have s': "progSeen st' =
        progSeen st @ map (\<lambda>k. progAfter (prog st) dn (take k (f # files))) [1..<Suc (Suc m)]" .
    have p': "prog st' = progAfter (prog st) dn (take (Suc m) (f # files))"
    proof (cases "m = 0")
      case True
      with p one show ?thesis by simp
    next
      case False
      with p have "prog st' = progAfter (prog st1) d1 (take m files)" by simp
      then show ?thesis by (simp only: step take_Suc_Cons)
    qed
    have d': "dn' = (fst dn + sum_list (map file_size (take (Suc m) (f # files))), snd dn + Suc m)"
      by (simp add: d d1)
    from m t d' s' p' show ?thesis
      by (intro exI [of _ "Suc m"]) simp
  qed
qed

lemma foldl_sizes: "foldl (\<lambda>s f. s + file_size f) a fs = a + sum_list (map file_size fs)"
  by (induction fs arbitrary: a) auto

lemma onPickFolder_early:
  "onPickFolder cloud A [] st = st\<lparr>msg := None\<rparr>"
  "files \<noteq> [] \<Longrightarrow> myRole st \<noteq> Write \<Longrightarrow>
     onPickFolder cloud A files st = st\<lparr>msg := Some ''You only have read access.''\<rparr>"
  "files \<noteq> [] \<Longrightarrow> myRole st = Write \<Longrightarrow> filter isImageFile files = [] \<Longrightarrow>
     onPickFolder cloud A files st = st\<lparr>msg := Some ''No images found in selected folder.''\<rparr>"
  by (simp_all add: onPickFolder_def)

lemma onPickFolder_run:
  assumes "myRole st = Write" and "filter isImageFile files \<noteq> []"
    and "uploadLoop cloud A (filter isImageFile files) (0, 0) (uploadStart files st) = (thrown, dn, st3)"
  shows "onPickFolder cloud A files st =
           (case thrown of
              None \<Rightarrow> st3
            | Some err \<Rightarrow> st3\<lparr>msg := Some (err_message err)\<rparr>)\<lparr>busy := False\<rparr>"
proof -
  from assms(2) have "files \<noteq> []" by auto
  with assms show ?thesis
    by (simp add: onPickFolder_def uploadStart_def foldl_sizes Let_def)
qed

lemma onPickFolder_calls:
  "\<exists>new. reserveCalls (onPickFolder cloud A files st) = reserveCalls st @ new \<and>
         subseq (map fst new) (filter isImageFile files) \<and>
         (\<forall>(f, d) \<in> set new.
            \<exists>blob. makePreviewBlob cloud f 640 (8 / 10) = Inr blob \<and> d = blob_size blob) \<and>
         quota (supabase (onPickFolder cloud A files st)) =
           foldl (\<lambda>q d. snd (reserve_quota_rpc cloud q d)) (quota (supabase st)) (map snd new)"
proof -
  have none: ?thesis
    if "reserveCalls (onPickFolder cloud A files st) = reserveCalls st"
      and "supabase (onPickFolder cloud A files st) = supabase st"
    using that by (intro exI [of _ "[]"]) simp
  consider (empty) "files = []" | (reader) "files \<noteq> []" "myRole st \<noteq> Write"
    | (noimg) "files \<noteq> []" "myRole st = Write" "filter isImageFile files = []"
    | (run) "myRole st = Write" "filter isImageFile files \<noteq> []"
    by blast
  then show ?thesis
  proof cases
    case empty
    then show ?thesis by (intro none) (simp_all add: onPickFolder_early)
  next
    case reader
    then show ?thesis by (intro none) (simp_all add: onPickFolder_early)
  next
    case noimg
    then show ?thesis by (intro none) (simp_all add: onPickFolder_early)
  next
    case run
    obtain thrown dn st3 where
      l: "uploadLoop cloud A (filter isImageFile files) (0, 0) (uploadStart files st) = (thrown, dn, st3)"
      by (cases "uploadLoop cloud A (filter isImageFile files) (0, 0) (uploadStart files st)") auto
    from uploadLoop_calls [OF l] obtain new where
      n: "reserveCalls st3 = reserveCalls (uploadStart files st) @ new"
      and s: "subseq (map fst new) (filter isImageFile files)"
      and b: "\<forall>(f, d) \<in> set new.
            \<exists>blob. makePreviewBlob cloud f 640 (8 / 10) = Inr blob \<and> d = blob_size blob"
      and q: "quota (supabase st3) =
           foldl (\<lambda>q d. snd (reserve_quota_rpc cloud q d)) (quota (supabase (uploadStart files st)))
             (map snd new)"
      by (elim exE conjE)
    have r: "reserveCalls (onPickFolder cloud A files st) = reserveCalls st3"
      "supabase (onPickFolder cloud A files st) = supabase st3"
      by (simp_all add: onPickFolder_run [OF run l] split: option.splits)
    have u: "reserveCalls (uploadStart files st) = reserveCalls st"
      "supabase (uploadStart files st) = supabase st"
      by (simp_all add: uploadStart_def setProg_def)
    from n s b q show ?thesis
      unfolding r u by (intro exI [of _ new] conjI)
  qed
qed

lemma uploadItem_charged:
  assumes "uploadItem cloud A f dn st = (thrown, dn', st')"
  shows "(reserveCalls st' = reserveCalls st \<and>
          media_items (supabase st') = media_items (supabase st) \<and>
          quota (supabase st') = quota (supabase st)) \<or>
         (\<exists>blob. makePreviewBlob cloud f 640 (8 / 10) = Inr blob \<and>
            reserveCalls st' = reserveCalls st @ [(f, blob_size blob)] \<and>
            quota (supabase st') =
              snd (reserve_quota_rpc cloud (quota (supabase st)) (blob_size blob)) \<and>
            (thrown \<noteq> None \<and> media_items (supabase st') = media_items (supabase st) \<or>
             thrown = None \<and>
             fst (reserve_quota_rpc cloud (quota (supabase st)) (blob_size blob)) = None \<and>
             (\<exists>row. media_items (supabase st') = media_items (supabase st) @ [row] \<and>
                    media_file_name row = file_name f \<and> media_size_bytes row = file_size f)))"
  using assms
  by (auto simp: uploadItem_def Let_def setProg_def
      split: sum.splits option.splits prod.splits if_splits)

lemma uploadLoop_charged:
  assumes "uploadLoop cloud A files dn st = (thrown, dn', st')"
  shows "\<exists>charges extra rows.
           reserveCalls st' = reserveCalls st @ charges @ extra \<and>
           media_items (supabase st') = media_items (supabase st) @ rows \<and>
           list_all2 (chargedFor cloud) rows charges \<and>
           granted (reserve_quota_rpc cloud) (quota (supabase st)) (map snd charges) \<and>
           (extra = [] \<or> thrown \<noteq> None \<and> length extra = 1)"
  using assms
proof (induction files arbitrary: dn st)
  case Nil
  then have "reserveCalls st' = reserveCalls st @ [] @ []"
    "media_items (supabase st') = media_items (supabase st) @ []"
    by simp_all
  then show ?case
    by (intro exI [of _ "[]"] conjI) simp_all
next
  case (Cons f files)
  obtain t1 d1 st1 where i: "uploadItem cloud A f dn st = (t1, d1, st1)"
    by (cases "uploadItem cloud A f dn st") auto
  have stop: "st' = st1 \<and> thrown = t1" if "t1 \<noteq> None"
    using that Cons.prems i by (cases t1) auto
  have go: "uploadLoop cloud A files d1 st1 = (thrown, dn', st')" if "t1 = None"
    using that Cons.prems i by simp
  from uploadItem_charged [OF i] show ?case
  proof (elim disjE exE conjE)
    assume same: "reserveCalls st1 = reserveCalls st"
      "media_items (supabase st1) = media_items (supabase st)"
      "quota (supabase st1) = quota (supabase st)"
    show ?thesis
    proof (cases "t1 = None")
      case False
      from stop [OF False] same have "reserveCalls st' = reserveCalls st @ [] @ []"
        "media_items (supabase st') = media_items (supabase st) @ []"
        by simp_all
      then show ?thesis
        by (intro exI [of _ "[]"] conjI) simp_all
    next
      case True
      from Cons.IH [OF go [OF True]] show ?thesis
        unfolding same .
    qed
  next
    fix blob
    assume b: "makePreviewBlob cloud f 640 (8 / 10) = Inr blob"
      and c: "reserveCalls st1 = reserveCalls st @ [(f, blob_size blob)]"
      and t: "t1 \<noteq> None" and m: "media_items (supabase st1) = media_items (supabase st)"
    from stop [OF t] c m have "reserveCalls st' = reserveCalls st @ [] @ [(f, blob_size blob)]"
      "media_items (supabase st') = media_items (supabase st) @ []"
      "thrown \<noteq> None"
      using t by simp_all
    then show ?thesis
      by (intro exI [of _ "[]"] exI [of _ "[(f, blob_size blob)]"] conjI) simp_all
  next
    fix blob row
    assume b: "makePreviewBlob cloud f 640 (8 / 10) = Inr blob"
      and c: "reserveCalls st1 = reserveCalls st @ [(f, blob_size blob)]"
      and q: "quota (supabase st1) =
              snd (reserve_quota_rpc cloud (quota (supabase st)) (blob_size blob))"
      and t: "t1 = None"
      and g: "fst (reserve_quota_rpc cloud (quota (supabase st)) (blob_size blob)) = None"
      and m: "media_items (supabase st1) = media_items (supabase st) @ [row]"
      and r: "media_file_name row = file_name f" "media_size_bytes row = file_size f"
    from Cons.IH [OF go [OF t]] obtain charges extra rows where
      c2: "reserveCalls st' = reserveCalls st1 @ charges @ extra"
      and m2: "media_items (supabase st') = media_items (supabase st1) @ rows"
      and l2: "list_all2 (chargedFor cloud) rows charges"
      and g2: "granted (reserve_quota_rpc cloud) (quota (supabase st1)) (map snd charges)"
      and e2: "extra = [] \<or> thrown \<noteq> None \<and> length extra = 1"
      by (elim exE conjE)
    from b r have "chargedFor cloud row (f, blob_size blob)"
      by (simp add: chargedFor_def)
    with l2 have l: "list_all2 (chargedFor cloud) (row # rows) ((f, blob_size blob) # charges)"
      by simp
    from g g2 have gr: "granted (reserve_quota_rpc cloud) (quota (supabase st))
        (map snd ((f, blob_size blob) # charges))"
      by (simp add: q)
    have c': "reserveCalls st' = reserveCalls st @ ((f, blob_size blob) # charges) @ extra"
      by (simp add: c2 c)
    have m': "media_items (supabase st') = media_items (supabase st) @ (row # rows)"
      by (simp add: m2 m)
    from c' m' l gr e2 show ?thesis
      by (intro exI [of _ "(f, blob_size blob) # charges"] exI [of _ extra]
          exI [of _ "row # rows"] conjI)
  qed
qed

lemma onPickFolder_charged:
  "\<exists>charges extra rows.
     reserveCalls (onPickFolder cloud A files st) = reserveCalls st @ charges @ extra \<and>
     media_items (supabase (onPickFolder cloud A files st)) = media_items (supabase st) @ rows \<and>
     list_all2 (chargedFor cloud) rows charges \<and>
     granted (reserve_quota_rpc cloud) (quota (supabase st)) (map snd charges) \<and>
     (extra = [] \<or> msg (onPickFolder cloud A files st) \<noteq> None \<and> length extra = 1)"
proof -
  have none: ?thesis
    if "reserveCalls (onPickFolder cloud A files st) = reserveCalls st"
      and "supabase (onPickFolder cloud A files st) = supabase st"
  proof -
    from that have "reserveCalls (onPickFolder cloud A files st) = reserveCalls st @ [] @ []"
      "media_items (supabase (onPickFolder cloud A files st)) = media_items (supabase st) @ []"
      by simp_all
    then show ?thesis
      by (intro exI [of _ "[]"] conjI) simp_all
  qed
  consider (empty) "files = []" | (reader) "files \<noteq> []" "myRole st \<noteq> Write"
    | (noimg) "files \<noteq> []" "myRole st = Write" "filter isImageFile files = []"
    | (run) "myRole st = Write" "filter isImageFile files \<noteq> []"
    by blast
  then show ?thesis
  proof cases
    case empty
    then show ?thesis by (intro none) (simp_all add: onPickFolder_early)
  next
    case reader
    then show ?thesis by (intro none) (simp_all add: onPickFolder_early)
  next
    case noimg
    then show ?thesis by (intro none) (simp_all add: onPickFolder_early)
  next
    case run
    obtain thrown dn st3 where
      l: "uploadLoop cloud A (filter isImageFile files) (0, 0) (uploadStart files st) = (thrown, dn, st3)"
      by (cases "uploadLoop cloud A (filter isImageFile files) (0, 0) (uploadStart files st)") auto
    from uploadLoop_charged [OF l] obtain charges extra rows where
      c: "reserveCalls st3 = reserveCalls (uploadStart files st) @ charges @ extra"
      and m: "media_items (supabase st3) = media_items (supabase (uploadStart files st)) @ rows"
      and a: "list_all2 (chargedFor cloud) rows charges"
      and g: "granted (reserve_quota_rpc cloud) (quota (supabase (uploadStart files st)))
               (map snd charges)"
      and e: "extra = [] \<or> thrown \<noteq> None \<and> length extra = 1"
      by (elim exE conjE)
    have r: "reserveCalls (onPickFolder cloud A files st) = reserveCalls st3"
      "supabase (onPickFolder cloud A files st) = supabase st3"
      by (simp_all add: onPickFolder_run [OF run l] split: option.splits)
    have t: "msg (onPickFolder cloud A files st) \<noteq> None" if "thrown \<noteq> None"
      using that by (auto simp: onPickFolder_run [OF run l])
    have u: "reserveCalls (uploadStart files st) = reserveCalls st"
      "supabase (uploadStart files st) = supabase st"
      by (simp_all add: uploadStart_def setProg_def)
    from e t have e': "extra = [] \<or>
        msg (onPickFolder cloud A files st) \<noteq> None \<and> length extra = 1"
      by (cases "extra = []") simp_all
    from c m a g e' show ?thesis
      unfolding r u by (intro exI [of _ charges] exI [of _ extra] exI [of _ rows] conjI)
  qed
qed

lemma onPickFolder_charges:
  "\<exists>charges extra rows.
      reserveCalls (onPickFolder cloud B files st) = reserveCalls st @ charges @ extra \<and>
      media_items (supabase (onPickFolder cloud B files st)) = media_items (supabase st) @ rows \<and>
      list_all2 (chargedFor cloud) rows charges \<and>
      granted (reserve_quota_rpc cloud) (quota (supabase st)) (map snd charges) \<and>
      (extra = [] \<or> msg (onPickFolder cloud B files st) \<noteq> None \<and> length extra = 1) \<and>
      subseq (map fst (charges @ extra)) (filter isImageFile files) \<and>
      (\<forall>(f, delta) \<in> set (charges @ extra).
         \<exists>blob. makePreviewBlob cloud f 640 (8 / 10) = Inr blob \<and> delta = blob_size blob)"
proof -
  from onPickFolder_charged [of cloud B files st] obtain charges extra rows where
    c: "reserveCalls (onPickFolder cloud B files st) = reserveCalls st @ charges @ extra"
    and m: "media_items (supabase (onPickFolder cloud B files st)) = media_items (supabase st) @ rows"
    and a: "list_all2 (chargedFor cloud) rows charges"
    and g: "granted (reserve_quota_rpc cloud) (quota (supabase st)) (map snd charges)"
    and e: "extra = [] \<or> msg (onPickFolder cloud B files st) \<noteq> None \<and> length extra = 1"
    by (elim exE conjE)
  from onPickFolder_calls [of cloud B files st] obtain new where
    n: "reserveCalls (onPickFolder cloud B files st) = reserveCalls st @ new"
    and s: "subseq (map fst new) (filter isImageFile files)"
    and b: "\<forall>(f, delta) \<in> set new.
         \<exists>blob. makePreviewBlob cloud f 640 (8 / 10) = Inr blob \<and> delta = blob_size blob"
    by (elim exE conjE)
  from c n have "new = charges @ extra"
    by simp
  with s b have s': "subseq (map fst (charges @ extra)) (filter isImageFile files)"
    and b': "\<forall>(f, delta) \<in> set (charges @ extra).
         \<exists>blob. makePreviewBlob cloud f 640 (8 / 10) = Inr blob \<and> delta = blob_size blob"
    by (simp_all only:)
  from c m a g e s' b' show ?thesis
    by (intro exI [of _ charges] exI [of _ extra] exI [of _ rows] conjI)
qed

subsection \<open>What a scan publishes\<close>

lemma scanLoop_current:
  assumes "scanStats app = last (statsSeen app)" and "statsSeen app \<noteq> []"
  shows "scanStats (snd (scanLoop br n t photos v app)) =
           last (statsSeen (snd (scanLoop br n t photos v app)))"
  using assms
proof (induction photos arbitrary: v app)
  case Nil
  then show ?case by simp
next
  case (Cons p photos)
  obtain f rel where p: "p = (f, rel)" by (cases p)
  show ?case
  proof (cases "renders br p")
    case False
    with scanItem_fails [of br f rel n t v app] Cons.prems show ?thesis
      by (auto simp: p)
  next
    case True
    from scanItem_renders [OF True [unfolded p], of n t v app] obtain v' app' where
      s: "scanItem br n t f v app = Inr (v', app')"
      and a: "statsSeen app' = statsSeen app @ [statsAfter br n t v [(f, rel)]]"
        "scanStats app' = statsAfter br n t v [(f, rel)]"
      by auto
    from a have "scanStats app' = last (statsSeen app')" "statsSeen app' \<noteq> []"
      by simp_all
    from Cons.IH [OF this, of v'] show ?thesis
      by (simp add: p s)
  qed
qed

lemma scan_statsSeen:
  assumes "readDirHandle d = Inr entries"
    and "bytesOf (photosOf entries) \<le> quotaBytes app"
  shows "statsSeen (scanLocalFolderPhotosOnly br (Some (Inr d)) A app) =
           statsSeen app @
           zeroStats #
           zeroStats\<lparr>totalFiles := length (photosOf entries),
                     totalBytes := bytesOf (photosOf entries)\<rparr> #
           map (\<lambda>k. statsAfter br (length (photosOf entries)) (bytesOf (photosOf entries))
                       startVars (take k (photosOf entries)))
               [1..<Suc (length (takeWhile (renders br) (photosOf entries)))]"
    and "scanStats (scanLocalFolderPhotosOnly br (Some (Inr d)) A app) =
           last (statsSeen (scanLocalFolderPhotosOnly br (Some (Inr d)) A app))"
proof -
  let ?n = "length (photosOf entries)" and ?t = "bytesOf (photosOf entries)"
  let ?app0 = "scanStart A app"
  let ?app1 = "setScanStats ((scanStats ?app0)\<lparr>totalFiles := ?n, totalBytes := ?t\<rparr>) ?app0"
  let ?run = "scanLoop br ?n ?t (photosOf entries) startVars ?app1"
  from assms(2) have le: "?t \<le> quotaBytes ?app0"
    by (simp add: scanStart_fields)
  have b: "statsSeen (snd (scanBody br (Some (Inr d)) A ?app0)) = statsSeen (snd ?run) \<and>
           scanStats (snd (scanBody br (Some (Inr d)) A ?app0)) = scanStats (snd ?run)"
    unfolding scanBody_cases(5) [OF assms(1) le]
    by (cases ?run; cases "fst ?run") auto
  have s1: "statsSeen ?app1 = statsSeen app @ [zeroStats, zeroStats\<lparr>totalFiles := ?n, totalBytes := ?t\<rparr>]"
    by (simp add: setScanStats_def scanStart_fields)
  have c1: "scanStats ?app1 = last (statsSeen ?app1)" "statsSeen ?app1 \<noteq> []"
    by (simp_all add: setScanStats_def)
  have "statsSeen (scanLocalFolderPhotosOnly br (Some (Inr d)) A app) =
          statsSeen (snd (scanBody br (Some (Inr d)) A ?app0))"
    by (simp add: scan_unfold scanCatch_fields)
  also have "\<dots> = statsSeen (snd ?run)"
    using b by simp
  also have "\<dots> = statsSeen ?app1 @
           map (\<lambda>k. statsAfter br ?n ?t startVars (take k (photosOf entries)))
               [1..<Suc (length (takeWhile (renders br) (photosOf entries)))]"
    by (rule scanLoop_statsSeen)
  also have "\<dots> = statsSeen app @ zeroStats # zeroStats\<lparr>totalFiles := ?n, totalBytes := ?t\<rparr> #
           map (\<lambda>k. statsAfter br ?n ?t startVars (take k (photosOf entries)))
               [1..<Suc (length (takeWhile (renders br) (photosOf entries)))]"
    by (simp only: s1 append_assoc append_Cons append_Nil)
  finally show "statsSeen (scanLocalFolderPhotosOnly br (Some (Inr d)) A app) =
           statsSeen app @ zeroStats # zeroStats\<lparr>totalFiles := ?n, totalBytes := ?t\<rparr> #
           map (\<lambda>k. statsAfter br ?n ?t startVars (take k (photosOf entries)))
               [1..<Suc (length (takeWhile (renders br) (photosOf entries)))]" .
  have "scanStats (scanLocalFolderPhotosOnly br (Some (Inr d)) A app) = scanStats (snd ?run)"
    using b by (simp add: scan_unfold scanCatch_fields)
  moreover have "statsSeen (scanLocalFolderPhotosOnly br (Some (Inr d)) A app) = statsSeen (snd ?run)"
    using b by (simp add: scan_unfold scanCatch_fields)
  ultimately show "scanStats (scanLocalFolderPhotosOnly br (Some (Inr d)) A app) =
           last (statsSeen (scanLocalFolderPhotosOnly br (Some (Inr d)) A app))"
    using scanLoop_current [OF c1, of br ?n ?t "photosOf entries" startVars]
    by simp
qed

lemma scan_no_run:
  assumes "picker = None \<or> (\<exists>e. picker = Some (Inl e)) \<or>
           (\<exists>d e. picker = Some (Inr d) \<and> readDirHandle d = Inl e) \<or>
           (\<exists>d entries. picker = Some (Inr d) \<and> readDirHandle d = Inr entries \<and>
              bytesOf (photosOf entries) > quotaBytes app)"
  shows "statsSeen (scanLocalFolderPhotosOnly br picker A app) = statsSeen app @ [zeroStats]"
    and "scanStats (scanLocalFolderPhotosOnly br picker A app) = zeroStats"
    and "nextUrl (scanLocalFolderPhotosOnly br picker A app) = nextUrl app"
proof -
  from assms have "\<exists>thrown al. scanBody br picker A (scanStart A app) =
      (thrown, (scanStart A app)\<lparr>alerts := al\<rparr>)"
  proof (elim disjE exE conjE)
    assume "picker = None"
    then have "scanBody br picker A (scanStart A app) =
        (None, (scanStart A app)\<lparr>alerts := alerts (scanStart A app) @
           [Message ''Folder picking needs Chrome/Edge (File System Access API).'']\<rparr>)"
      by (simp add: scanBody_cases alert_def)
    then show ?thesis by blast
  next
    fix e assume "picker = Some (Inl e)"
    then have "scanBody br picker A (scanStart A app) =
        (Some e, (scanStart A app)\<lparr>alerts := alerts (scanStart A app)\<rparr>)"
      by (simp add: scanBody_cases)
    then show ?thesis by blast
  next
    fix d e assume "picker = Some (Inr d)" "readDirHandle d = Inl e"
    then have "scanBody br picker A (scanStart A app) =
        (Some e, (scanStart A app)\<lparr>alerts := alerts (scanStart A app)\<rparr>)"
      by (simp add: scanBody_cases)
    then show ?thesis by blast
  next
    fix d entries assume "picker = Some (Inr d)" "readDirHandle d = Inr entries"
      "bytesOf (photosOf entries) > quotaBytes app"
    then have "scanBody br picker A (scanStart A app) =
        (None, (scanStart A app)\<lparr>alerts := alerts (scanStart A app) @
           [QuotaExceeded (bytesOf (photosOf entries)) (quotaBytes (scanStart A app))]\<rparr>)"
      by (simp add: scanBody_cases(4) scanStart_fields alert_def)
    then show ?thesis by blast
  qed
  then obtain thrown al where
    b: "scanBody br picker A (scanStart A app) = (thrown, (scanStart A app)\<lparr>alerts := al\<rparr>)"
    by blast
  show "statsSeen (scanLocalFolderPhotosOnly br picker A app) = statsSeen app @ [zeroStats]"
    and "scanStats (scanLocalFolderPhotosOnly br picker A app) = zeroStats"
    and "nextUrl (scanLocalFolderPhotosOnly br picker A app) = nextUrl app"
    by (simp_all add: scan_unfold b scanCatch_fields scanStart_fields)
qed

lemma last_snapshots:
  "last (xs @ a # b # map g [1..<Suc m]) = (if m = 0 then b else g m)"
proof (cases m)
  case 0
  then show ?thesis by simp
next
  case (Suc k)
  then have "[1..<Suc m] = [1..<m] @ [m]"
    by simp
  then have "map g [1..<Suc m] = map g [1..<m] @ [g m]"
    by simp
  then have "xs @ a # b # map g [1..<Suc m] = (xs @ a # b # map g [1..<m]) @ [g m]"
    by simp
  then have "last (xs @ a # b # map g [1..<Suc m]) = g m"
    by (simp only: last_snoc)
  with Suc show ?thesis by simp
qed

lemma scan_final_stats:
  assumes "readDirHandle d = Inr entries"
    and "bytesOf (photosOf entries) \<le> quotaBytes app"
  shows "scanStats (scanLocalFolderPhotosOnly br (Some (Inr d)) A app) =
     (let m = length (takeWhile (renders br) (photosOf entries)) in
      if m = 0 then zeroStats\<lparr>totalFiles := length (photosOf entries),
                               totalBytes := bytesOf (photosOf entries)\<rparr>
      else statsAfter br (length (photosOf entries)) (bytesOf (photosOf entries)) startVars
             (take m (photosOf entries)))"
  unfolding scan_statsSeen(2) [OF assms] scan_statsSeen(1) [OF assms] Let_def
  by (rule last_snapshots)

lemma scan_completes:
  assumes "readDirHandle d = Inr entries"
    and "bytesOf (photosOf entries) \<le> quotaBytes app"
    and "\<forall>p \<in> set (photosOf entries). renders br p"
  shows "doneFiles (scanStats (scanLocalFolderPhotosOnly br (Some (Inr d)) A app)) =
           length (photosOf entries)"
    and "doneBytes (scanStats (scanLocalFolderPhotosOnly br (Some (Inr d)) A app)) =
           bytesOf (photosOf entries)"
    and "totalFiles (scanStats (scanLocalFolderPhotosOnly br (Some (Inr d)) A app)) =
           length (photosOf entries)"
    and "totalBytes (scanStats (scanLocalFolderPhotosOnly br (Some (Inr d)) A app)) =
           bytesOf (photosOf entries)"
proof -
  from assms(3) have m: "takeWhile (renders br) (photosOf entries) = photosOf entries"
    by (simp add: takeWhile_eq_all_conv)
  show "doneFiles (scanStats (scanLocalFolderPhotosOnly br (Some (Inr d)) A app)) =
           length (photosOf entries)"
    and "doneBytes (scanStats (scanLocalFolderPhotosOnly br (Some (Inr d)) A app)) =
           bytesOf (photosOf entries)"
    and "totalFiles (scanStats (scanLocalFolderPhotosOnly br (Some (Inr d)) A app)) =
           length (photosOf entries)"
    and "totalBytes (scanStats (scanLocalFolderPhotosOnly br (Some (Inr d)) A app)) =
           bytesOf (photosOf entries)"
    unfolding scan_final_stats [OF assms(1,2)] m
    by (simp_all add: Let_def statsAfter_def startVars_def zeroStats_def bytesOf_def)
qed

lemma scan_aborts:
  assumes "readDirHandle d = Inr entries"
    and "bytesOf (photosOf entries) \<le> quotaBytes app"
    and "photosOf entries = before @ bad # after"
    and "\<forall>p \<in> set before. renders br p"
    and "makePhotoPreviewBlob br (fst bad) = Inl e"
  shows "doneFiles (scanStats (scanLocalFolderPhotosOnly br (Some (Inr d)) A app)) = length before"
    and "doneBytes (scanStats (scanLocalFolderPhotosOnly br (Some (Inr d)) A app)) = bytesOf before"
    and "totalFiles (scanStats (scanLocalFolderPhotosOnly br (Some (Inr d)) A app)) =
           length before + 1 + length after"
proof -
  from assms(5) have "\<not> renders br bad"
    by (simp add: renders_def)
  with assms(4) have m: "takeWhile (renders br) (before @ bad # after) = before"
    by (simp add: takeWhile_append2)
  show "doneFiles (scanStats (scanLocalFolderPhotosOnly br (Some (Inr d)) A app)) = length before"
    and "doneBytes (scanStats (scanLocalFolderPhotosOnly br (Some (Inr d)) A app)) = bytesOf before"
    and "totalFiles (scanStats (scanLocalFolderPhotosOnly br (Some (Inr d)) A app)) =
           length before + 1 + length after"
    unfolding scan_final_stats [OF assms(1,2)] assms(3) m
    by (simp_all add: Let_def statsAfter_def startVars_def zeroStats_def bytesOf_def)
qed

lemma scanLoop_vars:
  assumes "scanLoop br n t photos v app = (Inr v', app')"
  shows "v_originalBytes v' = v_originalBytes v + bytesOf photos \<and>
         v_doneFiles v' = v_doneFiles v + length photos \<and>
         (\<forall>p \<in> set photos. renders br p)"
  using assms
proof (induction photos arbitrary: v app)
  case Nil
  then show ?case by (simp add: bytesOf_def)
next
  case (Cons p photos)
  obtain f rel where p: "p = (f, rel)" by (cases p)
  show ?case
  proof (cases "renders br p")
    case False
    with scanItem_fails [of br f rel n t v app] Cons.prems show ?thesis
      by (auto simp: p)
  next
    case True
    from scanItem_renders [OF True [unfolded p], of n t v app] obtain v1 app1 where
      s: "scanItem br n t f v app = Inr (v1, app1)"
      and v: "v_originalBytes v1 = v_originalBytes v + file_size f"
        "v_doneFiles v1 = v_doneFiles v + 1"
      by auto
    from Cons.prems have "scanLoop br n t photos v1 app1 = (Inr v', app')"
      by (simp add: p s)
    from Cons.IH [OF this] True show ?thesis
      by (simp add: v p bytesOf_def)
  qed
qed

lemma scan_run_outcome:
  assumes "readDirHandle d = Inr entries"
    and "bytesOf (photosOf entries) \<le> quotaBytes app"
    and "scanLoop br (length (photosOf entries)) (bytesOf (photosOf entries)) (photosOf entries)
           startVars (scanHeader (photosOf entries) A app) = (res, app2)"
  shows "case res of
           Inl e \<Rightarrow>
             alerts (scanLocalFolderPhotosOnly br (Some (Inr d)) A app) =
               alerts app @ (if err_name e \<noteq> ''AbortError''
                             then [Message (if err_message e \<noteq> [] then err_message e
                                            else ''Scan failed'')]
                             else []) \<and>
             consoleErrors (scanLocalFolderPhotosOnly br (Some (Inr d)) A app) =
               consoleErrors app @ [e] \<and>
             albums (scanLocalFolderPhotosOnly br (Some (Inr d)) A app) = albums (scanStart A app)
         | Inr v \<Rightarrow>
             alerts (scanLocalFolderPhotosOnly br (Some (Inr d)) A app) = alerts app \<and>
             consoleErrors (scanLocalFolderPhotosOnly br (Some (Inr d)) A app) = consoleErrors app \<and>
             albums (scanLocalFolderPhotosOnly br (Some (Inr d)) A app) =
               map (\<lambda>a. if local_id a = A
                         then a\<lparr>local_originalBytes := v_originalBytes v,
                                local_previewBytes := v_previewBytes v,
                                local_itemsScanned := length (photosOf entries),
                                local_previewUrls := v_previewUrls v\<rparr>
                         else a) (albums (scanStart A app))"
proof -
  from assms(2) have le: "bytesOf (photosOf entries) \<le> quotaBytes (scanStart A app)"
    by (simp add: scanStart_fields)
  note fr = scanLoop_frame [of br "length (photosOf entries)" "bytesOf (photosOf entries)"
      "photosOf entries" startVars "scanHeader (photosOf entries) A app", unfolded assms(3) snd_conv]
  have h: "albums (scanHeader (photosOf entries) A app) = albums (scanStart A app)"
    "alerts (scanHeader (photosOf entries) A app) = alerts app"
    "consoleErrors (scanHeader (photosOf entries) A app) = consoleErrors app"
    by (simp_all add: scanHeader_def setScanStats_def scanStart_fields)
  show ?thesis
  proof (cases res)
    case (Inl e)
    with assms(3) have "scanBody br (Some (Inr d)) A (scanStart A app) = (Some e, app2)"
      unfolding scanBody_cases(5) [OF assms(1) le] scanHeader_def by simp
    with Inl fr h show ?thesis
      by (simp add: scan_unfold scanCatch_alerts scanCatch_console scanCatch_fields)
  next
    case (Inr v)
    with assms(3) have "scanBody br (Some (Inr d)) A (scanStart A app) =
        (None, app2\<lparr>albums :=
               map (\<lambda>a. if local_id a = A
                         then a\<lparr>local_originalBytes := v_originalBytes v,
                                local_previewBytes := v_previewBytes v,
                                local_itemsScanned := length (photosOf entries),
                                local_previewUrls := v_previewUrls v\<rparr>
                         else a) (albums app2)\<rparr>)"
      unfolding scanBody_cases(5) [OF assms(1) le] scanHeader_def by simp
    with Inr fr h show ?thesis
      by (simp add: scan_unfold scanCatch_alerts scanCatch_console scanCatch_fields)
  qed
qed

subsection \<open>Quota charging and failures\<close>

lemma walk_twoPhotos:
  "readDirHandle twoPhotosDir = Inr [(photoA, ''beach.JPG''), (photoB, ''day2/hill.png'')]"
  by (simp add: readDirHandle_def twoPhotosDir_def)

lemma isPhoto_samples: "isPhoto photoA" "isPhoto photoB" "isPhoto torn"
  by (simp_all add: isPhoto_def photoA_def photoB_def torn_def startsWith_def endsWith_def
      toLowerCase_def lowerChar_def)

lemma sample_previews:
  "makePhotoPreviewBlob sampleBrowser photoA =
     Inr \<lparr>blob_size = 1048576, blob_width = 1280, blob_height = 960\<rparr>"
  "makePhotoPreviewBlob sampleBrowser photoB =
     Inr \<lparr>blob_size = 2097152, blob_width = 1280, blob_height = 960\<rparr>"
  "makePhotoPreviewBlob sampleBrowser torn =
     Inl \<lparr>err_name = ''InvalidStateError'',
          err_message = ''The source image could not be decoded.''\<rparr>"
  by (simp_all add: makePhotoPreviewBlob_def sampleBrowser_def photoA_def photoB_def torn_def
      scaledDims_def roundDiv_nat)

text \<open>
  The claim C4 as it is written fails on the local scan: with a quota of 100 MB and two
  photos of 60 MB each, whose previews take 1 MB and 2 MB, the scan is refused for the
  whole folder before any preview is made. What is compared with the quota is the sum of
  the original file sizes.
\<close>

theorem charge_counterexample:
  "alerts (scanLocalFolderPhotosOnly sampleBrowser (Some (Inr twoPhotosDir)) ''L1'' sampleApp) =
     [QuotaExceeded 125829120 104857600] \<and>
   statsSeen (scanLocalFolderPhotosOnly sampleBrowser (Some (Inr twoPhotosDir)) ''L1'' sampleApp) =
     [zeroStats] \<and>
   previewSize sampleBrowser (photoA, ''beach.JPG'') +
     previewSize sampleBrowser (photoB, ''day2/hill.png'') = 3145728 \<and>
   quotaBytes sampleApp = 104857600"
proof -
  have p: "photosOf [(photoA, ''beach.JPG''), (photoB, ''day2/hill.png'')] =
      [(photoA, ''beach.JPG''), (photoB, ''day2/hill.png'')]"
    by (simp add: photosOf_def isPhoto_samples)
  have b: "bytesOf [(photoA, ''beach.JPG''), (photoB, ''day2/hill.png'')] = 125829120"
    by (simp add: bytesOf_def photoA_def photoB_def)
  have q: "quotaBytes (scanStart ''L1'' sampleApp) = 104857600"
    by (simp add: scanStart_fields sampleApp_def)
  have "scanBody sampleBrowser (Some (Inr twoPhotosDir)) ''L1'' (scanStart ''L1'' sampleApp) =
      (None, alert (QuotaExceeded 125829120 104857600) (scanStart ''L1'' sampleApp))"
    using scanBody_cases(4) [OF walk_twoPhotos, of "scanStart ''L1'' sampleApp" sampleBrowser "''L1''"]
    by (simp add: p b q)
  then have "alerts (scanLocalFolderPhotosOnly sampleBrowser (Some (Inr twoPhotosDir)) ''L1'' sampleApp) =
     [QuotaExceeded 125829120 104857600]"
    "statsSeen (scanLocalFolderPhotosOnly sampleBrowser (Some (Inr twoPhotosDir)) ''L1'' sampleApp) =
     [zeroStats]"
    by (simp_all add: scan_unfold scanCatch_alerts scanCatch_fields alert_def scanStart_fields
        sampleApp_def)
  moreover have "previewSize sampleBrowser (photoA, ''beach.JPG'') +
     previewSize sampleBrowser (photoB, ''day2/hill.png'') = 3145728"
    by (simp add: previewSize_def sample_previews)
  moreover have "quotaBytes sampleApp = 104857600"
    by (simp add: sampleApp_def)
  ultimately show ?thesis by blast
qed

lemma scan_refused:
  assumes rd: "readDirHandle d = Inr entries" and gt: "bytesOf (photosOf entries) > quotaBytes app"
  shows "alerts (scanLocalFolderPhotosOnly br (Some (Inr d)) A app) =
        alerts app @ [QuotaExceeded (bytesOf (photosOf entries)) (quotaBytes app)] \<and>
      statsSeen (scanLocalFolderPhotosOnly br (Some (Inr d)) A app) = statsSeen app @ [zeroStats] \<and>
      nextUrl (scanLocalFolderPhotosOnly br (Some (Inr d)) A app) = nextUrl app"
proof -
  from gt have "bytesOf (photosOf entries) > quotaBytes (scanStart A app)"
    by (simp add: scanStart_fields)
  from scanBody_cases(4) [OF rd this, of br A]
  have "alerts (scanLocalFolderPhotosOnly br (Some (Inr d)) A app) =
      alerts app @ [QuotaExceeded (bytesOf (photosOf entries)) (quotaBytes app)]"
    by (simp add: scan_unfold scanCatch_alerts alert_def scanStart_fields)
  moreover from rd gt have "Some (Inr d) = None \<or> (\<exists>e. Some (Inr d) = Some (Inl e)) \<or>
         (\<exists>d' e. Some (Inr d) = Some (Inr d') \<and> readDirHandle d' = Inl e) \<or>
         (\<exists>d' entries. Some (Inr d) = Some (Inr d') \<and> readDirHandle d' = Inr entries \<and>
            bytesOf (photosOf entries) > quotaBytes app)"
    by blast
  note scan_no_run [OF this, of br A]
  ultimately show ?thesis by simp
qed

lemma scan_accepted:
  assumes rd: "readDirHandle d = Inr entries" and le: "bytesOf (photosOf entries) \<le> quotaBytes app"
    and ok: "\<forall>p \<in> set (photosOf entries). renders br p"
  shows "doneFiles (scanStats (scanLocalFolderPhotosOnly br (Some (Inr d)) A app)) =
        length (photosOf entries) \<and>
      alerts (scanLocalFolderPhotosOnly br (Some (Inr d)) A app) = alerts app"
proof -
  from scanLoop_completes [OF ok, of "length (photosOf entries)" "bytesOf (photosOf entries)"
      startVars "scanHeader (photosOf entries) A app"]
  obtain v app2 where
    "scanLoop br (length (photosOf entries)) (bytesOf (photosOf entries)) (photosOf entries)
         startVars (scanHeader (photosOf entries) A app) = (Inr v, app2)"
    by blast
  from scan_run_outcome [OF rd le this] scan_completes(1) [OF rd le ok, of A] show ?thesis
    by simp
qed

text \<open>
  C4 (amended). On the album page every item a run adds to the catalogue is charged for
  by a reservation of its own, made after its preview was rendered and granted, whose
  delta is the byte size of that preview and not of the original file. These are the
  run's calls of \<open>reserve_quota\<close>, in the order of the selection and at most one for a
  file; when the run ends with an error there may be one more call after them, for the
  file at which the run ended. The local scan makes no reservation: it compares the sum
  of the original sizes of all photos with the quota once, before the first preview;
  above the quota nothing is processed, and at or below it every photo is processed
  whatever its preview's size.
\<close>

theorem charge_is_per_rendition:
  "(\<exists>charges extra rows.
      reserveCalls (onPickFolder cloud B files st) = reserveCalls st @ charges @ extra \<and>
      media_items (supabase (onPickFolder cloud B files st)) = media_items (supabase st) @ rows \<and>
      list_all2 (chargedFor cloud) rows charges \<and>
      granted (reserve_quota_rpc cloud) (quota (supabase st)) (map snd charges) \<and>
      (extra = [] \<or> msg (onPickFolder cloud B files st) \<noteq> None \<and> length extra = 1) \<and>
      subseq (map fst (charges @ extra)) (filter isImageFile files) \<and>
      (\<forall>(f, delta) \<in> set (charges @ extra).
         \<exists>blob. makePreviewBlob cloud f 640 (8 / 10) = Inr blob \<and> delta = blob_size blob)) \<and>
   (readDirHandle d = Inr entries \<and> bytesOf (photosOf entries) > quotaBytes app \<longrightarrow>
      alerts (scanLocalFolderPhotosOnly br (Some (Inr d)) A app) =
        alerts app @ [QuotaExceeded (bytesOf (photosOf entries)) (quotaBytes app)] \<and>
      statsSeen (scanLocalFolderPhotosOnly br (Some (Inr d)) A app) = statsSeen app @ [zeroStats] \<and>
      nextUrl (scanLocalFolderPhotosOnly br (Some (Inr d)) A app) = nextUrl app) \<and>
   (readDirHandle d = Inr entries \<and> bytesOf (photosOf entries) \<le> quotaBytes app \<and>
    (\<forall>p \<in> set (photosOf entries). renders br p) \<longrightarrow>
      doneFiles (scanStats (scanLocalFolderPhotosOnly br (Some (Inr d)) A app)) =
        length (photosOf entries) \<and>
      alerts (scanLocalFolderPhotosOnly br (Some (Inr d)) A app) = alerts app)"
proof -
  have 2: "readDirHandle d = Inr entries \<and> bytesOf (photosOf entries) > quotaBytes app \<longrightarrow>
      alerts (scanLocalFolderPhotosOnly br (Some (Inr d)) A app) =
        alerts app @ [QuotaExceeded (bytesOf (photosOf entries)) (quotaBytes app)] \<and>
      statsSeen (scanLocalFolderPhotosOnly br (Some (Inr d)) A app) = statsSeen app @ [zeroStats] \<and>
      nextUrl (scanLocalFolderPhotosOnly br (Some (Inr d)) A app) = nextUrl app"
  proof (rule impI)
    assume h: "readDirHandle d = Inr entries \<and> bytesOf (photosOf entries) > quotaBytes app"
    from scan_refused [OF h [THEN conjunct1] h [THEN conjunct2]]
    show "alerts (scanLocalFolderPhotosOnly br (Some (Inr d)) A app) =
        alerts app @ [QuotaExceeded (bytesOf (photosOf entries)) (quotaBytes app)] \<and>
      statsSeen (scanLocalFolderPhotosOnly br (Some (Inr d)) A app) = statsSeen app @ [zeroStats] \<and>
      nextUrl (scanLocalFolderPhotosOnly br (Some (Inr d)) A app) = nextUrl app" .
  qed
  have 3: "readDirHandle d = Inr entries \<and> bytesOf (photosOf entries) \<le> quotaBytes app \<and>
    (\<forall>p \<in> set (photosOf entries). renders br p) \<longrightarrow>
      doneFiles (scanStats (scanLocalFolderPhotosOnly br (Some (Inr d)) A app)) =
        length (photosOf entries) \<and>
      alerts (scanLocalFolderPhotosOnly br (Some (Inr d)) A app) = alerts app"
  proof (rule impI)
    assume h: "readDirHandle d = Inr entries \<and> bytesOf (photosOf entries) \<le> quotaBytes app \<and>
      (\<forall>p \<in> set (photosOf entries). renders br p)"
    from scan_accepted [OF h [THEN conjunct1] h [THEN conjunct2, THEN conjunct1]
        h [THEN conjunct2, THEN conjunct2]]
    show "doneFiles (scanStats (scanLocalFolderPhotosOnly br (Some (Inr d)) A app)) =
        length (photosOf entries) \<and>
      alerts (scanLocalFolderPhotosOnly br (Some (Inr d)) A app) = alerts app" .
  qed
  from onPickFolder_charges [of cloud B files st] 2 3 show ?thesis
    by (intro conjI)
qed

lemma walk_beach:
  "readDirHandle beachDir =
     Inr [(photoA, ''beach.JPG''),
          (\<lparr>file_name = ''todo.txt'', file_type = ''text/plain'', file_size = 120,
            file_lastModified = 1700000000000, file_bytes = 7\<rparr>, ''notes/todo.txt'')]"
  by (simp add: readDirHandle_def beachDir_def)

lemma photos_beach:
  "photosOf [(photoA, ''beach.JPG''),
          (\<lparr>file_name = ''todo.txt'', file_type = ''text/plain'', file_size = 120,
            file_lastModified = 1700000000000, file_bytes = 7\<rparr>, ''notes/todo.txt'')] =
     [(photoA, ''beach.JPG'')]"
  by (simp add: photosOf_def isPhoto_samples)
    (simp add: isPhoto_def startsWith_def endsWith_def toLowerCase_def lowerChar_def)

lemma renders_samples:
  "renders sampleBrowser (photoA, r)" "renders sampleBrowser (photoB, r)"
  "\<not> renders sampleBrowser (torn, r)"
  by (simp_all add: renders_def sample_previews)

lemma isImage_samples: "isImageFile photoA" "isImageFile photoB" "isImageFile torn"
  by (simp_all add: isImageFile_def photoA_def photoB_def torn_def startsWith_def endsWith_def
      toLowerCase_def lowerChar_def)

lemma scale_sample: "binary64 (real 640 / real 4000) = real 5764607523034235 / 2 ^ 55"
  by (subst binary64_ratio [where n = 55]) (simp_all add: rteDiv_def Let_def)

lemma width_sample:
  "binary64 (real (4000 * 5764607523034235) / real (2 ^ 55)) = real 5629499534213120 / 2 ^ 43"
  by (subst binary64_ratio [where n = 43]) (simp_all add: rteDiv_def Let_def)

lemma height_sample:
  "binary64 (real (3000 * 5764607523034235) / real (2 ^ 55)) = real 8444249301319680 / 2 ^ 44"
  by (subst binary64_ratio [where n = 44]) (simp_all add: rteDiv_def Let_def)

lemma previewDims_eval:
  assumes "max width height = m" and "m \<noteq> 0"
    and "binary64 (real maxSide / real m) = s" and "s \<le> 1"
    and "binary64 (real width * s) = a" and "binary64 (real height * s) = b"
  shows "previewDims maxSide width height = (nat (max 1 (Math_round a)), nat (max 1 (Math_round b)))"
  using assms by (simp add: previewDims_def Let_def min_def)

lemma previewDims_sample: "previewDims 640 4000 3000 = (640, 480)"
proof -
  have m: "max (4000::nat) 3000 = 4000" "(4000::nat) \<noteq> 0" by simp_all
  have s: "real 5764607523034235 / 2 ^ 55 \<le> (1::real)" by simp
  have w: "real 4000 * (real 5764607523034235 / 2 ^ 55) =
      real (4000 * 5764607523034235) / real (2 ^ 55)"
    and h: "real 3000 * (real 5764607523034235 / 2 ^ 55) =
      real (3000 * 5764607523034235) / real (2 ^ 55)"
    by simp_all
  have a: "binary64 (real 4000 * (real 5764607523034235 / 2 ^ 55)) = real 5629499534213120 / 2 ^ 43"
    unfolding w by (rule width_sample)
  have b: "binary64 (real 3000 * (real 5764607523034235 / 2 ^ 55)) = real 8444249301319680 / 2 ^ 44"
    unfolding h by (rule height_sample)
  from previewDims_eval [OF m scale_sample s a b] show ?thesis
    by (simp add: Math_round_def)
qed

lemma narrow_scale: "binary64 (real 640 / real 9984) = real 4619076540892816 / 2 ^ 56"
  by (subst binary64_ratio [where n = 56]) (simp_all add: rteDiv_def Let_def)

lemma narrow_width:
  "binary64 (real (117 * 4619076540892816) / real (2 ^ 56)) = real 8444249301319679 / 2 ^ 50"
  by (subst binary64_ratio [where n = 50]) (simp_all add: rteDiv_def Let_def)

lemma narrow_height:
  "binary64 (real (9984 * 4619076540892816) / real (2 ^ 56)) = real 5629499534213120 / 2 ^ 43"
  by (subst binary64_ratio [where n = 43]) (simp_all add: rteDiv_def Let_def)

text \<open>
  A narrow image, where the scale factor's rounding shows: the exact width would be 7.5
  and round to 8; the product with the rounded scale factor lies just below 7.5.
\<close>

lemma previewDims_narrow: "previewDims 640 117 9984 = (7, 640)"
proof -
  have m: "max (117::nat) 9984 = 9984" "(9984::nat) \<noteq> 0" by simp_all
  have s: "real 4619076540892816 / 2 ^ 56 \<le> (1::real)" by simp
  have w: "real 117 * (real 4619076540892816 / 2 ^ 56) =
      real (117 * 4619076540892816) / real (2 ^ 56)"
    and h: "real 9984 * (real 4619076540892816 / 2 ^ 56) =
      real (9984 * 4619076540892816) / real (2 ^ 56)"
    by simp_all
  have a: "binary64 (real 117 * (real 4619076540892816 / 2 ^ 56)) = real 8444249301319679 / 2 ^ 50"
    unfolding w by (rule narrow_width)
  have b: "binary64 (real 9984 * (real 4619076540892816 / 2 ^ 56)) = real 5629499534213120 / 2 ^ 43"
    unfolding h by (rule narrow_height)
  from previewDims_eval [OF m narrow_scale s a b] show ?thesis
    by (simp add: Math_round_def)
qed

lemma album_previews:
  "makePreviewBlob sampleCloud photoA 640 (8 / 10) =
     Inr \<lparr>blob_size = 1048576, blob_width = 640, blob_height = 480\<rparr>"
  "makePreviewBlob sampleCloud photoB 640 (8 / 10) =
     Inr \<lparr>blob_size = 2097152, blob_width = 640, blob_height = 480\<rparr>"
  by (simp_all add: makePreviewBlob_def sampleCloud_def sampleBrowser_def photoA_def photoB_def
      previewDims_sample)

lemma sha_samples: "sha256Hex sampleCloud 1 = ''01ab''" "sha256Hex sampleCloud 2 = ''02ab''"
  by (simp_all add: sha256Hex_def sampleCloud_def hexDigit_def)

lemma sample_fields:
  "arrayBuffer sampleCloud f = Inr (file_bytes f)"
  "selectFails sampleCloud f = False"
  "uploadError sampleCloud f = None"
  "insertError sampleCloud f = None"
  "getUser sampleCloud f = Some ''u7''"
  "exifDate sampleCloud f = None"
  "reserve_quota_rpc sampleCloud = reserve_quota"
  "createImageBitmap sampleCloud = createImageBitmap sampleBrowser"
  by (simp_all add: sampleCloud_def)

lemma uploadItem_reserve_fails:
  assumes "arrayBuffer cloud f = Inr buf"
    and "selectFails cloud f \<or>
         maybeSingle (filter (\<lambda>r. media_album_id r = A \<and> media_sha256 r = sha256Hex cloud buf)
                        (media_items (supabase st))) = None"
    and "imageDims cloud f = Inr dims"
    and "makePreviewBlob cloud f 640 (8 / 10) = Inr blob"
    and "reserve_quota_rpc cloud (quota (supabase st)) (blob_size blob) = (Some e, q')"
  shows "uploadItem cloud A f dn st =
           (Some e, dn,
            st\<lparr>supabase := (supabase st)\<lparr>quota := q'\<rparr>,
               reserveCalls := reserveCalls st @ [(f, blob_size blob)]\<rparr>)"
  using assms by (auto simp: uploadItem_def Let_def)

lemma uploadItem_cataloged:
  assumes "arrayBuffer cloud f = Inr buf"
    and "selectFails cloud f \<or>
         maybeSingle (filter (\<lambda>r. media_album_id r = A \<and> media_sha256 r = sha256Hex cloud buf)
                        (media_items (supabase st))) = None"
    and "imageDims cloud f = Inr dims"
    and "makePreviewBlob cloud f 640 (8 / 10) = Inr blob"
    and "reserve_quota_rpc cloud (quota (supabase st)) (blob_size blob) = (None, q')"
    and "uploadError cloud f = None"
    and "getUser cloud f = Some uid"
    and "insertError cloud f = None"
  shows "\<exists>st'. uploadItem cloud A f dn st = (None, (fst dn + file_size f, snd dn + 1), st') \<and>
           quota (supabase st') = q' \<and>
           reserveCalls st' = reserveCalls st @ [(f, blob_size blob)] \<and>
           length (items st') = length (items st) + 1 \<and>
           map media_sha256 (media_items (supabase st')) =
             map media_sha256 (media_items (supabase st)) @ [sha256Hex cloud buf] \<and>
           map media_album_id (media_items (supabase st')) =
             map media_album_id (media_items (supabase st)) @ [A]"
  using assms by (auto simp: uploadItem_def Let_def setProg_def)

lemma uploadItem_skipped:
  assumes "arrayBuffer cloud f = Inr buf"
    and "\<not> selectFails cloud f"
    and "maybeSingle (filter (\<lambda>r. media_album_id r = A \<and> media_sha256 r = sha256Hex cloud buf)
                        (media_items (supabase st))) = Some row"
  shows "uploadItem cloud A f dn st =
           (None, (fst dn + file_size f, snd dn + 1),
            setProg ((prog st)\<lparr>doneFiles := snd dn + 1, doneBytes := fst dn + file_size f\<rparr>) st)"
  using assms by (auto simp: uploadItem_def Let_def)

lemma upload_photoA_only:
  "\<exists>st'. onPickFolder sampleCloud ''a1'' [photoA] samplePage = st'\<lparr>busy := False\<rparr> \<and>
         quota (supabase st') = \<lparr>used_bytes = 1048576, limit_bytes = 1500000\<rparr> \<and>
         reserveCalls st' = [(photoA, 1048576)] \<and> msg st' = None"
proof -
  let ?st = "uploadStart [photoA] samplePage"
  have s: "supabase ?st = \<lparr>media_items = [], previews = [],
                   quota = \<lparr>used_bytes = 0, limit_bytes = 1500000\<rparr>\<rparr>"
    "reserveCalls ?st = []" "msg ?st = None"
    by (simp_all add: uploadStart_def setProg_def samplePage_def)
  have 1: "arrayBuffer sampleCloud photoA = Inr 1"
    by (simp add: sample_fields photoA_def)
  have 2: "selectFails sampleCloud photoA \<or>
         maybeSingle (filter (\<lambda>r. media_album_id r = ''a1'' \<and> media_sha256 r = sha256Hex sampleCloud 1)
                        (media_items (supabase ?st))) = None"
    by (simp add: s maybeSingle_def)
  have 3: "imageDims sampleCloud photoA = Inr (4000, 3000)"
    by (simp add: imageDims_def sample_fields sampleBrowser_def photoA_def)
  have 5: "reserve_quota_rpc sampleCloud (quota (supabase ?st))
      (blob_size \<lparr>blob_size = 1048576, blob_width = 640, blob_height = 480\<rparr>) =
      (None, \<lparr>used_bytes = 1048576, limit_bytes = 1500000\<rparr>)"
    by (simp add: s sample_fields reserve_quota_def)
  from uploadItem_cataloged [OF 1 2 3 album_previews(1) 5 sample_fields(3) sample_fields(5)
      sample_fields(4), of "(0, 0)"]
  obtain st' where
    i: "uploadItem sampleCloud ''a1'' photoA (0, 0) ?st =
          (None, (fst (0::nat, 0::nat) + file_size photoA, snd (0::nat, 0::nat) + 1), st')"
    and q: "quota (supabase st') = \<lparr>used_bytes = 1048576, limit_bytes = 1500000\<rparr>"
    and c: "reserveCalls st' =
        reserveCalls ?st @ [(photoA, blob_size \<lparr>blob_size = 1048576, blob_width = 640, blob_height = 480\<rparr>)]"
    and "length (items st') = length (items ?st) + 1"
    and "map media_sha256 (media_items (supabase st')) =
           map media_sha256 (media_items (supabase ?st)) @ [sha256Hex sampleCloud 1]"
    and "map media_album_id (media_items (supabase st')) =
           map media_album_id (media_items (supabase ?st)) @ [''a1'']"
    by (elim exE conjE)
  from i have l: "uploadLoop sampleCloud ''a1'' (filter isImageFile [photoA]) (0, 0) ?st =
      (None, (fst (0::nat, 0::nat) + file_size photoA, snd (0::nat, 0::nat) + 1), st')"
    by (simp add: isImage_samples)
  have w: "myRole samplePage = Write" by (simp add: samplePage_def)
  have ne: "filter isImageFile [photoA] \<noteq> []" by (simp add: isImage_samples)
  from onPickFolder_run [OF w ne l]
  have r: "onPickFolder sampleCloud ''a1'' [photoA] samplePage = st'\<lparr>busy := False\<rparr>"
    by simp
  from uploadItem_frame [OF i] have m: "msg st' = None"
    by (simp add: s)
  from c have c': "reserveCalls st' = [(photoA, 1048576)]"
    by (simp add: s)
  from r q c' m show ?thesis
    by (intro exI [of _ st'] conjI)
qed

theorem charge_is_per_rendition_witness:
  "reserveCalls (onPickFolder sampleCloud ''a1'' [photoA] samplePage) = [(photoA, 1048576)] \<and>
   map media_file_name (media_items (supabase (onPickFolder sampleCloud ''a1'' [photoA] samplePage))) =
     [''beach.JPG''] \<and>
   map media_size_bytes (media_items (supabase (onPickFolder sampleCloud ''a1'' [photoA] samplePage))) =
     [62914560] \<and>
   used_bytes (quota (supabase (onPickFolder sampleCloud ''a1'' [photoA] samplePage))) = 1048576 \<and>
   bytesOf (photosOf [(photoA, ''beach.JPG''), (photoB, ''day2/hill.png'')]) > quotaBytes sampleApp \<and>
   nextUrl (scanLocalFolderPhotosOnly sampleBrowser (Some (Inr twoPhotosDir)) ''L1'' sampleApp) = 5 \<and>
   bytesOf [(photoA, ''beach.JPG'')] \<le> quotaBytes sampleApp \<and>
   doneFiles (scanStats (scanLocalFolderPhotosOnly sampleBrowser (Some (Inr beachDir)) ''L1'' sampleApp)) = 1 \<and>
   alerts (scanLocalFolderPhotosOnly sampleBrowser (Some (Inr beachDir)) ''L1'' sampleApp) = []"
proof -
  let ?R = "onPickFolder sampleCloud ''a1'' [photoA] samplePage"
  have p: "photosOf [(photoA, ''beach.JPG''), (photoB, ''day2/hill.png'')] =
      [(photoA, ''beach.JPG''), (photoB, ''day2/hill.png'')]"
    by (simp add: photosOf_def isPhoto_samples)
  have gt: "bytesOf (photosOf [(photoA, ''beach.JPG''), (photoB, ''day2/hill.png'')]) >
      quotaBytes sampleApp"
    unfolding p by (simp add: bytesOf_def photoA_def photoB_def sampleApp_def)
  have le: "bytesOf [(photoA, ''beach.JPG'')] \<le> quotaBytes sampleApp"
    by (simp add: bytesOf_def photoA_def sampleApp_def)
  note t1 = charge_is_per_rendition [where cloud = sampleCloud and B = "''a1''"
      and files = "[photoA]" and st = samplePage and d = twoPhotosDir
      and entries = "[(photoA, ''beach.JPG''), (photoB, ''day2/hill.png'')]"
      and app = sampleApp and br = sampleBrowser and A = "''L1''"]
  note t2 = charge_is_per_rendition [where cloud = sampleCloud and B = "''a1''"
      and files = "[photoA]" and st = samplePage and d = beachDir
      and entries = "[(photoA, ''beach.JPG''),
          (\<lparr>file_name = ''todo.txt'', file_type = ''text/plain'', file_size = 120,
            file_lastModified = 1700000000000, file_bytes = 7\<rparr>, ''notes/todo.txt'')]"
      and app = sampleApp and br = sampleBrowser and A = "''L1''"]
  from t1 [THEN conjunct2] walk_twoPhotos gt
  have a: "nextUrl (scanLocalFolderPhotosOnly sampleBrowser (Some (Inr twoPhotosDir)) ''L1'' sampleApp) = 5"
    by (simp add: sampleApp_def)
  from t2 [THEN conjunct2] walk_beach le
  have b: "doneFiles (scanStats (scanLocalFolderPhotosOnly sampleBrowser (Some (Inr beachDir)) ''L1'' sampleApp)) = 1 \<and>
   alerts (scanLocalFolderPhotosOnly sampleBrowser (Some (Inr beachDir)) ''L1'' sampleApp) = []"
    by (simp add: photos_beach renders_samples sampleApp_def)
  from upload_photoA_only obtain st' where
    r: "?R = st'\<lparr>busy := False\<rparr>"
    and q: "quota (supabase st') = \<lparr>used_bytes = 1048576, limit_bytes = 1500000\<rparr>"
    and c: "reserveCalls st' = [(photoA, 1048576)]" and m: "msg st' = None"
    by (elim exE conjE)
  have c1: "reserveCalls ?R = [(photoA, 1048576)]" and m1: "msg ?R = None"
    and q1: "used_bytes (quota (supabase ?R)) = 1048576"
    by (simp_all add: r c m q)
  have z: "reserveCalls samplePage = []" "media_items (supabase samplePage) = []"
    by (simp_all add: samplePage_def)
  from t1 [THEN conjunct1] obtain charges extra rows where
    c2: "reserveCalls ?R = reserveCalls samplePage @ charges @ extra"
    and m2: "media_items (supabase ?R) = media_items (supabase samplePage) @ rows"
    and l2: "list_all2 (chargedFor sampleCloud) rows charges"
    and "granted (reserve_quota_rpc sampleCloud) (quota (supabase samplePage)) (map snd charges)"
    and e2: "extra = [] \<or> msg ?R \<noteq> None \<and> length extra = 1"
    and "subseq (map fst (charges @ extra)) (filter isImageFile [photoA])"
    and "\<forall>(f, delta) \<in> set (charges @ extra).
         \<exists>blob. makePreviewBlob sampleCloud f 640 (8 / 10) = Inr blob \<and> delta = blob_size blob"
    by (elim exE conjE)
  from e2 m1 have "extra = []" by simp
  with c2 c1 z have "charges = [(photoA, 1048576)]" by simp
  with l2 obtain row where "rows = [row]" "chargedFor sampleCloud row (photoA, 1048576)"
    by (auto simp: list_all2_Cons2)
  with m2 z have n: "map media_file_name (media_items (supabase ?R)) = [''beach.JPG'']"
    "map media_size_bytes (media_items (supabase ?R)) = [62914560]"
    by (simp_all add: chargedFor_def photoA_def)
  from c1 n q1 gt a le b show ?thesis
    by (intro conjI) simp_all
qed

lemma walk_torn:
  "readDirHandle tornFirstDir = Inr [(torn, ''torn.jpg''), (photoA, ''beach.JPG'')]"
  "readDirHandle tornLastDir = Inr [(photoA, ''beach.JPG''), (torn, ''torn.jpg'')]"
  by (simp_all add: readDirHandle_def tornFirstDir_def tornLastDir_def)

lemma photos_torn:
  "photosOf [(torn, ''torn.jpg''), (photoA, ''beach.JPG'')] =
     [] @ (torn, ''torn.jpg'') # [(photoA, ''beach.JPG'')]"
  "photosOf [(photoA, ''beach.JPG''), (torn, ''torn.jpg'')] =
     [(photoA, ''beach.JPG'')] @ (torn, ''torn.jpg'') # []"
  by (simp_all add: photosOf_def isPhoto_samples)

lemma bytes_torn:
  "bytesOf ([] @ (torn, ''torn.jpg'') # [(photoA, ''beach.JPG'')]) \<le> quotaBytes sampleApp"
  "bytesOf ([(photoA, ''beach.JPG'')] @ (torn, ''torn.jpg'') # []) \<le> quotaBytes sampleApp"
  by (simp_all add: bytesOf_def photoA_def torn_def sampleApp_def)

lemma torn_fails: "makePhotoPreviewBlob sampleBrowser (fst (torn, r)) = Inl decodeError"
  by (simp add: sample_previews decodeError_def)

lemma scan_abort_report:
  assumes rd: "readDirHandle d = Inr entries"
    and le: "bytesOf (photosOf entries) \<le> quotaBytes app"
    and ph: "photosOf entries = before @ bad # after"
    and ok: "\<forall>p \<in> set before. renders br p"
    and bad: "makePhotoPreviewBlob br (fst bad) = Inl e"
  shows "alerts (scanLocalFolderPhotosOnly br (Some (Inr d)) A app) =
           alerts app @ (if err_name e \<noteq> ''AbortError''
                         then [Message (if err_message e \<noteq> [] then err_message e
                                        else ''Scan failed'')]
                         else [])"
    and "consoleErrors (scanLocalFolderPhotosOnly br (Some (Inr d)) A app) = consoleErrors app @ [e]"
    and "albums (scanLocalFolderPhotosOnly br (Some (Inr d)) A app) = albums (scanStart A app)"
proof -
  let ?h = "scanHeader (photosOf entries) A app"
  from scanLoop_stops [OF ok bad, of "length (photosOf entries)" "bytesOf (photosOf entries)"
      after startVars ?h]
  have "scanLoop br (length (photosOf entries)) (bytesOf (photosOf entries)) (photosOf entries)
      startVars ?h =
      (Inl e, snd (scanLoop br (length (photosOf entries)) (bytesOf (photosOf entries)) before
                     startVars ?h))"
    by (simp only: ph)
  from scan_run_outcome [OF rd le this]
  show "alerts (scanLocalFolderPhotosOnly br (Some (Inr d)) A app) =
           alerts app @ (if err_name e \<noteq> ''AbortError''
                         then [Message (if err_message e \<noteq> [] then err_message e
                                        else ''Scan failed'')]
                         else [])"
    and "consoleErrors (scanLocalFolderPhotosOnly br (Some (Inr d)) A app) = consoleErrors app @ [e]"
    and "albums (scanLocalFolderPhotosOnly br (Some (Inr d)) A app) = albums (scanStart A app)"
    by simp_all
qed

lemma upload_photoB_item:
  "uploadItem sampleCloud ''a1'' photoB (0, 0) (uploadStart [photoB, photoA] samplePage) =
     (Some quotaExceededError, (0, 0),
      (uploadStart [photoB, photoA] samplePage)
        \<lparr>supabase := (supabase (uploadStart [photoB, photoA] samplePage))
                        \<lparr>quota := \<lparr>used_bytes = 0, limit_bytes = 1500000\<rparr>\<rparr>,
         reserveCalls := reserveCalls (uploadStart [photoB, photoA] samplePage) @ [(photoB, 2097152)]\<rparr>)"
proof -
  let ?st = "uploadStart [photoB, photoA] samplePage"
  have s: "supabase ?st = \<lparr>media_items = [], previews = [],
                   quota = \<lparr>used_bytes = 0, limit_bytes = 1500000\<rparr>\<rparr>"
    by (simp add: uploadStart_def setProg_def samplePage_def)
  have 1: "arrayBuffer sampleCloud photoB = Inr 2"
    by (simp add: sample_fields photoB_def)
  have 2: "selectFails sampleCloud photoB \<or>
         maybeSingle (filter (\<lambda>r. media_album_id r = ''a1'' \<and> media_sha256 r = sha256Hex sampleCloud 2)
                        (media_items (supabase ?st))) = None"
    by (simp add: s maybeSingle_def)
  have 3: "imageDims sampleCloud photoB = Inr (4000, 3000)"
    by (simp add: imageDims_def sample_fields sampleBrowser_def photoB_def)
  have 5: "reserve_quota_rpc sampleCloud (quota (supabase ?st))
      (blob_size \<lparr>blob_size = 2097152, blob_width = 640, blob_height = 480\<rparr>) =
      (Some quotaExceededError, \<lparr>used_bytes = 0, limit_bytes = 1500000\<rparr>)"
    by (simp add: s sample_fields reserve_quota_def quotaExceededError_def)
  from uploadItem_reserve_fails [OF 1 2 3 album_previews(2) 5, of "(0, 0)"]
  show ?thesis
    by simp
qed

lemma upload_photoB_first:
  "uploadLoop sampleCloud ''a1'' ([] @ photoB # [photoA]) (0, 0) (uploadStart [photoB, photoA] samplePage) =
     (Some quotaExceededError, (0, 0),
      (uploadStart [photoB, photoA] samplePage)
        \<lparr>supabase := (supabase (uploadStart [photoB, photoA] samplePage))
                        \<lparr>quota := \<lparr>used_bytes = 0, limit_bytes = 1500000\<rparr>\<rparr>,
         reserveCalls := reserveCalls (uploadStart [photoB, photoA] samplePage) @ [(photoB, 2097152)]\<rparr>)"
  by (simp add: upload_photoB_item)

text \<open>
  The claim C3 as it is written fails on both loops. In the local scan of a folder with an
  undecodable file followed by a good photo, nothing is counted as done and the good photo
  is never looked at. On the album page, with room for 1.5 MB, a first file whose preview
  takes 2 MB makes the reservation fail, and the second file, whose preview would fit, is
  never tried.
\<close>

theorem isolation_counterexample:
  "doneFiles (scanStats (scanLocalFolderPhotosOnly sampleBrowser (Some (Inr tornFirstDir)) ''L1'' sampleApp)) = 0 \<and>
   totalFiles (scanStats (scanLocalFolderPhotosOnly sampleBrowser (Some (Inr tornFirstDir)) ''L1'' sampleApp)) = 2 \<and>
   alerts (scanLocalFolderPhotosOnly sampleBrowser (Some (Inr tornFirstDir)) ''L1'' sampleApp) =
     [Message ''The source image could not be decoded.''] \<and>
   renders sampleBrowser (photoA, ''beach.JPG'') \<and>
   reserveCalls (onPickFolder sampleCloud ''a1'' [photoB, photoA] samplePage) = [(photoB, 2097152)] \<and>
   prog (onPickFolder sampleCloud ''a1'' [photoB, photoA] samplePage) =
     \<lparr>totalFiles = 2, doneFiles = 0, totalBytes = 125829120, doneBytes = 0\<rparr> \<and>
   msg (onPickFolder sampleCloud ''a1'' [photoB, photoA] samplePage) = Some ''Quota exceeded''"
proof -
  have ok: "\<forall>p \<in> set []. renders sampleBrowser p"
    by simp
  have le: "bytesOf (photosOf [(torn, ''torn.jpg''), (photoA, ''beach.JPG'')]) \<le> quotaBytes sampleApp"
    unfolding photos_torn(1) by (rule bytes_torn(1))
  note ab = scan_aborts [OF walk_torn(1) le photos_torn(1) ok torn_fails, of "''L1''"]
  note rp = scan_abort_report [OF walk_torn(1) le photos_torn(1) ok torn_fails, of "''L1''"]
  have a: "doneFiles (scanStats (scanLocalFolderPhotosOnly sampleBrowser (Some (Inr tornFirstDir)) ''L1'' sampleApp)) = 0"
    "totalFiles (scanStats (scanLocalFolderPhotosOnly sampleBrowser (Some (Inr tornFirstDir)) ''L1'' sampleApp)) = 2"
    using ab by simp_all
  have b: "alerts (scanLocalFolderPhotosOnly sampleBrowser (Some (Inr tornFirstDir)) ''L1'' sampleApp) =
     [Message ''The source image could not be decoded.'']"
    using rp(1) by (simp add: decodeError_def sampleApp_def)
  have im: "filter isImageFile [photoB, photoA] = [photoB, photoA]"
    by (simp add: isImage_samples)
  have w: "myRole samplePage = Write"
    by (simp add: samplePage_def)
  from upload_photoB_first
  have l: "uploadLoop sampleCloud ''a1'' (filter isImageFile [photoB, photoA]) (0, 0)
      (uploadStart [photoB, photoA] samplePage) =
     (Some quotaExceededError, (0, 0),
      (uploadStart [photoB, photoA] samplePage)
        \<lparr>supabase := (supabase (uploadStart [photoB, photoA] samplePage))
                        \<lparr>quota := \<lparr>used_bytes = 0, limit_bytes = 1500000\<rparr>\<rparr>,
         reserveCalls := reserveCalls (uploadStart [photoB, photoA] samplePage) @ [(photoB, 2097152)]\<rparr>)"
    by (simp only: im append_Nil)
  have ne: "filter isImageFile [photoB, photoA] \<noteq> []"
    unfolding im by simp
  note r = onPickFolder_run [OF w ne l]
  have c: "reserveCalls (onPickFolder sampleCloud ''a1'' [photoB, photoA] samplePage) = [(photoB, 2097152)]"
    "prog (onPickFolder sampleCloud ''a1'' [photoB, photoA] samplePage) =
     \<lparr>totalFiles = 2, doneFiles = 0, totalBytes = 125829120, doneBytes = 0\<rparr>"
    "msg (onPickFolder sampleCloud ''a1'' [photoB, photoA] samplePage) = Some ''Quota exceeded''"
    unfolding r uploadStart_def im
    by (simp_all add: setProg_def samplePage_def quotaExceededError_def photoA_def photoB_def)
  from a b c renders_samples(1) show ?thesis
    by blast
qed

text \<open>
  C3 (amended). A failure on one item ends the run at that item. The state is the one the
  items before it produced (nothing of theirs is undone) together with what the failing
  item did before it threw; the thrown value is reported (console and alert in the local
  scan, the page's message on the album page); the items after it are not processed, and
  the result does not depend on them.
\<close>

theorem failure_ends_run:
  "((\<forall>p \<in> set before. renders br p) \<and> makePhotoPreviewBlob br (fst bad) = Inl e \<longrightarrow>
      scanLoop br n t (before @ bad # after) v app0 =
        (Inl e, snd (scanLoop br n t before v app0))) \<and>
   (readDirHandle d = Inr entries \<and> bytesOf (photosOf entries) \<le> quotaBytes app \<and>
    photosOf entries = before @ bad # after \<and>
    (\<forall>p \<in> set before. renders br p) \<and> makePhotoPreviewBlob br (fst bad) = Inl e \<longrightarrow>
      doneFiles (scanStats (scanLocalFolderPhotosOnly br (Some (Inr d)) A app)) = length before \<and>
      doneBytes (scanStats (scanLocalFolderPhotosOnly br (Some (Inr d)) A app)) = bytesOf before \<and>
      consoleErrors (scanLocalFolderPhotosOnly br (Some (Inr d)) A app) = consoleErrors app @ [e] \<and>
      alerts (scanLocalFolderPhotosOnly br (Some (Inr d)) A app) =
        alerts app @ (if err_name e \<noteq> ''AbortError''
                      then [Message (if err_message e \<noteq> [] then err_message e else ''Scan failed'')]
                      else []) \<and>
      albums (scanLocalFolderPhotosOnly br (Some (Inr d)) A app) = albums (scanStart A app) \<and>
      \<not> scanRunning (scanLocalFolderPhotosOnly br (Some (Inr d)) A app)) \<and>
   (uploadLoop cloud B ok dn st0 = (None, dn1, st1) \<and>
    uploadItem cloud B failing dn1 st1 = (Some e', dn2, st2) \<longrightarrow>
      uploadLoop cloud B (ok @ failing # rest) dn st0 = (Some e', dn2, st2)) \<and>
   (myRole st = Write \<and> filter isImageFile files \<noteq> [] \<and>
    uploadLoop cloud B (filter isImageFile files) (0, 0) (uploadStart files st) = (Some e', dn2, st2) \<longrightarrow>
      onPickFolder cloud B files st = st2\<lparr>msg := Some (err_message e'), busy := False\<rparr>)"
proof -
  have 1: "scanLoop br n t (before @ bad # after) v app0 =
        (Inl e, snd (scanLoop br n t before v app0))"
    if "\<forall>p \<in> set before. renders br p" "makePhotoPreviewBlob br (fst bad) = Inl e"
    using that by (rule scanLoop_stops)
  have 2: "doneFiles (scanStats (scanLocalFolderPhotosOnly br (Some (Inr d)) A app)) = length before \<and>
      doneBytes (scanStats (scanLocalFolderPhotosOnly br (Some (Inr d)) A app)) = bytesOf before \<and>
      consoleErrors (scanLocalFolderPhotosOnly br (Some (Inr d)) A app) = consoleErrors app @ [e] \<and>
      alerts (scanLocalFolderPhotosOnly br (Some (Inr d)) A app) =
        alerts app @ (if err_name e \<noteq> ''AbortError''
                      then [Message (if err_message e \<noteq> [] then err_message e else ''Scan failed'')]
                      else []) \<and>
      albums (scanLocalFolderPhotosOnly br (Some (Inr d)) A app) = albums (scanStart A app) \<and>
      \<not> scanRunning (scanLocalFolderPhotosOnly br (Some (Inr d)) A app)"
    if h: "readDirHandle d = Inr entries" "bytesOf (photosOf entries) \<le> quotaBytes app"
      "photosOf entries = before @ bad # after"
      "\<forall>p \<in> set before. renders br p" "makePhotoPreviewBlob br (fst bad) = Inl e"
    using scan_aborts(1,2) [OF h, of A] scan_abort_report [OF h, of A]
    by (simp add: scan_unfold)
  have 3: "uploadLoop cloud B (ok @ failing # rest) dn st0 = (Some e', dn2, st2)"
    if "uploadLoop cloud B ok dn st0 = (None, dn1, st1)"
      "uploadItem cloud B failing dn1 st1 = (Some e', dn2, st2)"
    using that by (rule uploadLoop_stops)
  have 4: "onPickFolder cloud B files st = st2\<lparr>msg := Some (err_message e'), busy := False\<rparr>"
    if h: "myRole st = Write" "filter isImageFile files \<noteq> []"
      "uploadLoop cloud B (filter isImageFile files) (0, 0) (uploadStart files st) = (Some e', dn2, st2)"
    using onPickFolder_run [OF h] by simp
  show ?thesis
  proof (intro conjI impI)
    assume "(\<forall>p \<in> set before. renders br p) \<and> makePhotoPreviewBlob br (fst bad) = Inl e"
    then show "scanLoop br n t (before @ bad # after) v app0 =
        (Inl e, snd (scanLoop br n t before v app0))"
      using 1 by blast
  next
    assume h: "readDirHandle d = Inr entries \<and> bytesOf (photosOf entries) \<le> quotaBytes app \<and>
      photosOf entries = before @ bad # after \<and>
      (\<forall>p \<in> set before. renders br p) \<and> makePhotoPreviewBlob br (fst bad) = Inl e"
    note c = 2 [OF h [THEN conjunct1] h [THEN conjunct2, THEN conjunct1]
        h [THEN conjunct2, THEN conjunct2, THEN conjunct1]
        h [THEN conjunct2, THEN conjunct2, THEN conjunct2, THEN conjunct1]
        h [THEN conjunct2, THEN conjunct2, THEN conjunct2, THEN conjunct2]]
    from c show "doneFiles (scanStats (scanLocalFolderPhotosOnly br (Some (Inr d)) A app)) = length before"
      by (elim conjE)
    from c show "doneBytes (scanStats (scanLocalFolderPhotosOnly br (Some (Inr d)) A app)) = bytesOf before"
      by (elim conjE)
    from c show "consoleErrors (scanLocalFolderPhotosOnly br (Some (Inr d)) A app) = consoleErrors app @ [e]"
      by (elim conjE)
    from c show "alerts (scanLocalFolderPhotosOnly br (Some (Inr d)) A app) =
        alerts app @ (if err_name e \<noteq> ''AbortError''
                      then [Message (if err_message e \<noteq> [] then err_message e else ''Scan failed'')]
                      else [])"
      by (elim conjE)
    from c show "albums (scanLocalFolderPhotosOnly br (Some (Inr d)) A app) = albums (scanStart A app)"
      by (elim conjE)
    from c show "\<not> scanRunning (scanLocalFolderPhotosOnly br (Some (Inr d)) A app)"
      by (elim conjE)
  next
    assume "uploadLoop cloud B ok dn st0 = (None, dn1, st1) \<and>
      uploadItem cloud B failing dn1 st1 = (Some e', dn2, st2)"
    then show "uploadLoop cloud B (ok @ failing # rest) dn st0 = (Some e', dn2, st2)"
      using 3 by blast
  next
    assume "myRole st = Write \<and> filter isImageFile files \<noteq> [] \<and>
      uploadLoop cloud B (filter isImageFile files) (0, 0) (uploadStart files st) = (Some e', dn2, st2)"
    then show "onPickFolder cloud B files st = st2\<lparr>msg := Some (err_message e'), busy := False\<rparr>"
      using 4 by blast
  qed
qed

theorem failure_ends_run_witness:
  "scanLoop sampleBrowser 2 62915560 ([(photoA, ''beach.JPG'')] @ (torn, ''torn.jpg'') # [])
       startVars sampleApp =
     (Inl decodeError,
      snd (scanLoop sampleBrowser 2 62915560 [(photoA, ''beach.JPG'')] startVars sampleApp)) \<and>
   doneFiles (scanStats (scanLocalFolderPhotosOnly sampleBrowser (Some (Inr tornLastDir)) ''L1'' sampleApp)) = 1 \<and>
   alerts (scanLocalFolderPhotosOnly sampleBrowser (Some (Inr tornLastDir)) ''L1'' sampleApp) =
     [Message ''The source image could not be decoded.''] \<and>
   uploadLoop sampleCloud ''a1'' ([] @ photoB # [photoA]) (0, 0) (uploadStart [photoB, photoA] samplePage) =
     (Some quotaExceededError, (0, 0), afterFailedReserve) \<and>
   onPickFolder sampleCloud ''a1'' [photoB, photoA] samplePage =
     afterFailedReserve\<lparr>msg := Some ''Quota exceeded'', busy := False\<rparr>"
proof -
  note t = failure_ends_run [where before = "[(photoA, ''beach.JPG'')]" and br = sampleBrowser
      and bad = "(torn, ''torn.jpg'')" and e = decodeError and n = 2 and t = 62915560
      and after = "[]" and v = startVars and ?app0.0 = sampleApp and d = tornLastDir
      and entries = "[(photoA, ''beach.JPG''), (torn, ''torn.jpg'')]" and app = sampleApp
      and A = "''L1''" and cloud = sampleCloud and B = "''a1''" and ok = "[]" and dn = "(0, 0)"
      and ?st0.0 = "uploadStart [photoB, photoA] samplePage" and ?dn1.0 = "(0, 0)"
      and ?st1.0 = "uploadStart [photoB, photoA] samplePage" and failing = photoB
      and e' = quotaExceededError and ?dn2.0 = "(0, 0)" and ?st2.0 = afterFailedReserve
      and rest = "[photoA]" and st = samplePage and files = "[photoB, photoA]"]
  have ok: "\<forall>p \<in> set [(photoA, ''beach.JPG'')]. renders sampleBrowser p"
    by (simp add: renders_samples)
  have le: "bytesOf (photosOf [(photoA, ''beach.JPG''), (torn, ''torn.jpg'')]) \<le> quotaBytes sampleApp"
    unfolding photos_torn(2) by (rule bytes_torn(2))
  have item: "uploadItem sampleCloud ''a1'' photoB (0, 0) (uploadStart [photoB, photoA] samplePage) =
      (Some quotaExceededError, (0, 0), afterFailedReserve)"
    using upload_photoB_item by (simp add: afterFailedReserve_def)
  have im: "filter isImageFile [photoB, photoA] = [photoB, photoA]"
    by (simp add: isImage_samples)
  have loop: "uploadLoop sampleCloud ''a1'' (filter isImageFile [photoB, photoA]) (0, 0)
      (uploadStart [photoB, photoA] samplePage) = (Some quotaExceededError, (0, 0), afterFailedReserve)"
    unfolding im using item by simp
  have ne: "filter isImageFile [photoB, photoA] \<noteq> []"
    unfolding im by simp
  have w: "myRole samplePage = Write"
    by (simp add: samplePage_def)
  have nil: "uploadLoop sampleCloud ''a1'' [] (0, 0) (uploadStart [photoB, photoA] samplePage) =
      (None, (0, 0), uploadStart [photoB, photoA] samplePage)"
    by simp
  note 1 = t [THEN conjunct1, THEN mp, OF conjI [OF ok torn_fails]]
  note 2 = t [THEN conjunct2, THEN conjunct1, THEN mp,
      OF conjI [OF walk_torn(2) conjI [OF le conjI [OF photos_torn(2) conjI [OF ok torn_fails]]]]]
  note 3 = t [THEN conjunct2, THEN conjunct2, THEN conjunct1, THEN mp, OF conjI [OF nil item]]
  note 4 = t [THEN conjunct2, THEN conjunct2, THEN conjunct2, THEN mp,
      OF conjI [OF w conjI [OF ne loop]]]
  from 1 2 3 4 show ?thesis
    by (simp add: decodeError_def quotaExceededError_def sampleApp_def)
qed

subsection \<open>Progress counters\<close>

lemma bytesOf_take_mono: "i \<le> j \<Longrightarrow> bytesOf (take i xs) \<le> bytesOf (take j xs)"
proof (induction xs arbitrary: i j)
  case Nil
  then show ?case by simp
next
  case (Cons x xs)
  show ?case
  proof (cases i)
    case 0
    then show ?thesis by (simp add: bytesOf_def)
  next
    case (Suc i')
    with Cons.prems obtain j' where j: "j = Suc j'" "i' \<le> j'"
      by (cases j) auto
    from Cons.IH [OF j(2)] show ?thesis
      by (simp add: Suc j bytesOf_def)
  qed
qed

lemma statsAfter_mono:
  assumes "i \<le> j"
  shows "neverBack (statsAfter br n t v (take i xs)) (statsAfter br n t v (take j xs))"
  using assms bytesOf_take_mono [OF assms, of xs]
  by (simp add: neverBack_def statsAfter_def min_le_iff_disj)

lemma snapshots_sorted:
  "sorted_wrt neverBack
     (zeroStats # zeroStats\<lparr>totalFiles := n, totalBytes := t\<rparr> #
      map (\<lambda>k. statsAfter br n t startVars (take k xs)) [1..<Suc m])"
proof -
  have "sorted_wrt (<) [1..<Suc m]"
    by (rule sorted_wrt_upt)
  then have s: "sorted_wrt neverBack (map (\<lambda>k. statsAfter br n t startVars (take k xs)) [1..<Suc m])"
    by (rule sorted_wrt_map_mono) (simp add: statsAfter_mono)
  have z: "neverBack zeroStats s" "neverBack (zeroStats\<lparr>totalFiles := n, totalBytes := t\<rparr>) s" for s
    by (simp_all add: neverBack_def zeroStats_def)
  from s z show ?thesis
    by (simp del: upt_Suc)
qed

lemma scan_monotone:
  "\<exists>new. statsSeen (scanLocalFolderPhotosOnly br picker A app) = statsSeen app @ new \<and>
         sorted_wrt neverBack new"
proof -
  consider (norun) "picker = None \<or> (\<exists>e. picker = Some (Inl e)) \<or>
           (\<exists>d e. picker = Some (Inr d) \<and> readDirHandle d = Inl e) \<or>
           (\<exists>d entries. picker = Some (Inr d) \<and> readDirHandle d = Inr entries \<and>
              bytesOf (photosOf entries) > quotaBytes app)"
    | (run) d entries where "picker = Some (Inr d)" "readDirHandle d = Inr entries"
        "bytesOf (photosOf entries) \<le> quotaBytes app"
  proof (cases picker)
    case None
    then show ?thesis by (intro that(1)) simp
  next
    case (Some r)
    show ?thesis
    proof (cases r)
      case (Inl e)
      with Some show ?thesis by (intro that(1)) simp
    next
      case (Inr d)
      show ?thesis
      proof (cases "readDirHandle d")
        case (Inl e)
        with Some \<open>r = Inr d\<close> show ?thesis by (intro that(1)) simp
      next
        case rd: (Inr entries)
        show ?thesis
        proof (cases "bytesOf (photosOf entries) > quotaBytes app")
          case True
          with Some \<open>r = Inr d\<close> rd show ?thesis by (intro that(1)) simp
        next
          case False
          with Some \<open>r = Inr d\<close> rd show ?thesis by (intro that(2) [of d entries]) simp_all
        qed
      qed
    qed
  qed
  then show ?thesis
  proof cases
    case norun
    from scan_no_run(1) [OF norun, of br A] show ?thesis
      by (intro exI [of _ "[zeroStats]"]) simp
  next
    case run
    from scan_statsSeen(1) [OF run(2,3), of br A] snapshots_sorted show ?thesis
      unfolding run(1) by (intro exI conjI)
  qed
qed

lemma onPickFolder_progress:
  assumes "myRole st = Write" and "filter isImageFile files \<noteq> []"
  shows "\<exists>m \<le> length (filter isImageFile files).
           progSeen (onPickFolder cloud B files st) =
             progSeen st @ uploadHeader files #
             map (\<lambda>k. progAfter (uploadHeader files) (0, 0) (take k (filter isImageFile files)))
                 [1..<Suc m] \<and>
           prog (onPickFolder cloud B files st) =
             (if m = 0 then uploadHeader files
              else progAfter (uploadHeader files) (0, 0) (take m (filter isImageFile files))) \<and>
           (msg (onPickFolder cloud B files st) = None \<longleftrightarrow> m = length (filter isImageFile files))"
proof -
  let ?st0 = "uploadStart files st"
  obtain thrown dn st3 where
    l: "uploadLoop cloud B (filter isImageFile files) (0, 0) ?st0 = (thrown, dn, st3)"
    by (cases "uploadLoop cloud B (filter isImageFile files) (0, 0) ?st0") auto
  have s0: "prog ?st0 = uploadHeader files" "progSeen ?st0 = progSeen st @ [uploadHeader files]"
    "msg ?st0 = None"
    by (simp_all add: uploadStart_def setProg_def uploadHeader_def)
  from uploadLoop_progress [OF l] obtain m where m: "m \<le> length (filter isImageFile files)"
    and t: "thrown = None \<longleftrightarrow> m = length (filter isImageFile files)"
    and s: "progSeen st3 = progSeen ?st0 @
        map (\<lambda>k. progAfter (prog ?st0) (0, 0) (take k (filter isImageFile files))) [1..<Suc m]"
    and p: "prog st3 = (if m = 0 then prog ?st0
        else progAfter (prog ?st0) (0, 0) (take m (filter isImageFile files)))"
    by (elim exE conjE)
  from uploadLoop_frame [OF l] have f: "msg st3 = None"
    by (simp add: s0)
  note r = onPickFolder_run [OF assms l]
  have 1: "progSeen (onPickFolder cloud B files st) = progSeen st3"
    and 2: "prog (onPickFolder cloud B files st) = prog st3"
    and 3: "msg (onPickFolder cloud B files st) = None \<longleftrightarrow> thrown = None"
    unfolding r using f by (simp_all split: option.splits)
  have s': "progSeen (onPickFolder cloud B files st) =
             progSeen st @ uploadHeader files #
             map (\<lambda>k. progAfter (uploadHeader files) (0, 0) (take k (filter isImageFile files)))
                 [1..<Suc m]"
    by (simp only: 1 s s0 append_assoc append_Cons append_Nil)
  have p': "prog (onPickFolder cloud B files st) =
             (if m = 0 then uploadHeader files
              else progAfter (uploadHeader files) (0, 0) (take m (filter isImageFile files)))"
    by (simp only: 2 p s0)
  from m s' p' 3 t show ?thesis
    by (intro exI [of _ m] conjI) simp_all
qed

lemma scan_total_bytes:
  assumes "readDirHandle d = Inr entries"
    and "bytesOf (photosOf entries) \<le> quotaBytes app"
  shows "totalBytes (scanStats (scanLocalFolderPhotosOnly br (Some (Inr d)) A app)) =
           bytesOf (photosOf entries)"
  unfolding scan_final_stats [OF assms]
  by (simp add: Let_def statsAfter_def zeroStats_def)

text \<open>
  The claim C5 as it is written fails on a run that a failure ends. In the local scan of a
  folder with a good photo followed by an undecodable file, the run is over with one of two
  files and 62914560 of 62915560 bytes counted as done: the file that failed is never
  counted.
\<close>

theorem progress_counterexample:
  "doneFiles (scanStats (scanLocalFolderPhotosOnly sampleBrowser (Some (Inr tornLastDir)) ''L1'' sampleApp)) = 1 \<and>
   totalFiles (scanStats (scanLocalFolderPhotosOnly sampleBrowser (Some (Inr tornLastDir)) ''L1'' sampleApp)) = 2 \<and>
   doneBytes (scanStats (scanLocalFolderPhotosOnly sampleBrowser (Some (Inr tornLastDir)) ''L1'' sampleApp)) = 62914560 \<and>
   totalBytes (scanStats (scanLocalFolderPhotosOnly sampleBrowser (Some (Inr tornLastDir)) ''L1'' sampleApp)) = 62915560 \<and>
   \<not> scanRunning (scanLocalFolderPhotosOnly sampleBrowser (Some (Inr tornLastDir)) ''L1'' sampleApp)"
proof -
  have ok: "\<forall>p \<in> set [(photoA, ''beach.JPG'')]. renders sampleBrowser p"
    by (simp add: renders_samples)
  have le: "bytesOf (photosOf [(photoA, ''beach.JPG''), (torn, ''torn.jpg'')]) \<le> quotaBytes sampleApp"
    unfolding photos_torn(2) by (rule bytes_torn(2))
  note ab = scan_aborts [OF walk_torn(2) le photos_torn(2) ok torn_fails, of "''L1''"]
  note tb = scan_total_bytes [OF walk_torn(2) le, of sampleBrowser "''L1''", unfolded photos_torn(2)]
  from ab tb show ?thesis
    by (simp add: bytesOf_def photoA_def torn_def scan_unfold)
qed

text \<open>
  C5 (amended). The counts of files and bytes done never go down across the snapshots a
  run publishes. Every item that finishes is counted exactly once, in full, when it
  finishes: the k-th snapshot after the header counts the first k items. When no item
  fails, the run ends with the files and bytes done equal to the totals. When an item
  fails, the run ends with the counts of the items finished before it; the failing item
  and the items after it are not counted. The album page's loop publishes its progress the
  same way, and its message stays empty exactly when every image was counted.
\<close>

theorem progress_counts:
  "(\<exists>new. statsSeen (scanLocalFolderPhotosOnly br picker A app) = statsSeen app @ new \<and>
          sorted_wrt neverBack new) \<and>
   (readDirHandle d = Inr entries \<and> bytesOf (photosOf entries) \<le> quotaBytes app \<longrightarrow>
      statsSeen (scanLocalFolderPhotosOnly br (Some (Inr d)) A app) =
        statsSeen app @
        zeroStats #
        zeroStats\<lparr>totalFiles := length (photosOf entries),
                  totalBytes := bytesOf (photosOf entries)\<rparr> #
        map (\<lambda>k. statsAfter br (length (photosOf entries)) (bytesOf (photosOf entries))
                    startVars (take k (photosOf entries)))
            [1..<Suc (length (takeWhile (renders br) (photosOf entries)))] \<and>
      scanStats (scanLocalFolderPhotosOnly br (Some (Inr d)) A app) =
        last (statsSeen (scanLocalFolderPhotosOnly br (Some (Inr d)) A app))) \<and>
   (readDirHandle d = Inr entries \<and> bytesOf (photosOf entries) \<le> quotaBytes app \<and>
    (\<forall>p \<in> set (photosOf entries). renders br p) \<longrightarrow>
      doneFiles (scanStats (scanLocalFolderPhotosOnly br (Some (Inr d)) A app)) =
        totalFiles (scanStats (scanLocalFolderPhotosOnly br (Some (Inr d)) A app)) \<and>
      doneBytes (scanStats (scanLocalFolderPhotosOnly br (Some (Inr d)) A app)) =
        totalBytes (scanStats (scanLocalFolderPhotosOnly br (Some (Inr d)) A app))) \<and>
   (readDirHandle d = Inr entries \<and> bytesOf (photosOf entries) \<le> quotaBytes app \<and>
    photosOf entries = before @ bad # after \<and>
    (\<forall>p \<in> set before. renders br p) \<and> makePhotoPreviewBlob br (fst bad) = Inl e \<longrightarrow>
      doneFiles (scanStats (scanLocalFolderPhotosOnly br (Some (Inr d)) A app)) = length before \<and>
      totalFiles (scanStats (scanLocalFolderPhotosOnly br (Some (Inr d)) A app)) =
        length before + 1 + length after) \<and>
   (myRole st = Write \<and> filter isImageFile files \<noteq> [] \<longrightarrow>
      (\<exists>m \<le> length (filter isImageFile files).
         progSeen (onPickFolder cloud B files st) =
           progSeen st @ uploadHeader files #
           map (\<lambda>k. progAfter (uploadHeader files) (0, 0) (take k (filter isImageFile files)))
               [1..<Suc m] \<and>
         prog (onPickFolder cloud B files st) =
           (if m = 0 then uploadHeader files
            else progAfter (uploadHeader files) (0, 0) (take m (filter isImageFile files))) \<and>
         (msg (onPickFolder cloud B files st) = None \<longleftrightarrow> m = length (filter isImageFile files))))"
proof (intro conjI impI)
  show "\<exists>new. statsSeen (scanLocalFolderPhotosOnly br picker A app) = statsSeen app @ new \<and>
          sorted_wrt neverBack new"
    by (rule scan_monotone)
next
  assume h: "readDirHandle d = Inr entries \<and> bytesOf (photosOf entries) \<le> quotaBytes app"
  note rd = h [THEN conjunct1] and le = h [THEN conjunct2]
  show "statsSeen (scanLocalFolderPhotosOnly br (Some (Inr d)) A app) =
        statsSeen app @
        zeroStats #
        zeroStats\<lparr>totalFiles := length (photosOf entries),
                  totalBytes := bytesOf (photosOf entries)\<rparr> #
        map (\<lambda>k. statsAfter br (length (photosOf entries)) (bytesOf (photosOf entries))
                    startVars (take k (photosOf entries)))
            [1..<Suc (length (takeWhile (renders br) (photosOf entries)))]"
    by (rule scan_statsSeen(1) [OF rd le])
  show "scanStats (scanLocalFolderPhotosOnly br (Some (Inr d)) A app) =
        last (statsSeen (scanLocalFolderPhotosOnly br (Some (Inr d)) A app))"
    by (rule scan_statsSeen(2) [OF rd le])
next
  assume h: "readDirHandle d = Inr entries \<and> bytesOf (photosOf entries) \<le> quotaBytes app \<and>
    (\<forall>p \<in> set (photosOf entries). renders br p)"
  note rd = h [THEN conjunct1] and le = h [THEN conjunct2, THEN conjunct1]
    and ok = h [THEN conjunct2, THEN conjunct2]
  show "doneFiles (scanStats (scanLocalFolderPhotosOnly br (Some (Inr d)) A app)) =
        totalFiles (scanStats (scanLocalFolderPhotosOnly br (Some (Inr d)) A app))"
    by (simp only: scan_completes(1,3) [OF rd le ok])
  show "doneBytes (scanStats (scanLocalFolderPhotosOnly br (Some (Inr d)) A app)) =
        totalBytes (scanStats (scanLocalFolderPhotosOnly br (Some (Inr d)) A app))"
    by (simp only: scan_completes(2,4) [OF rd le ok])
next
  assume h: "readDirHandle d = Inr entries \<and> bytesOf (photosOf entries) \<le> quotaBytes app \<and>
    photosOf entries = before @ bad # after \<and>
    (\<forall>p \<in> set before. renders br p) \<and> makePhotoPreviewBlob br (fst bad) = Inl e"
  note c = scan_aborts [OF h [THEN conjunct1] h [THEN conjunct2, THEN conjunct1]
        h [THEN conjunct2, THEN conjunct2, THEN conjunct1]
        h [THEN conjunct2, THEN conjunct2, THEN conjunct2, THEN conjunct1]
        h [THEN conjunct2, THEN conjunct2, THEN conjunct2, THEN conjunct2]]
  show "doneFiles (scanStats (scanLocalFolderPhotosOnly br (Some (Inr d)) A app)) = length before"
    by (rule c(1))
  show "totalFiles (scanStats (scanLocalFolderPhotosOnly br (Some (Inr d)) A app)) =
        length before + 1 + length after"
    by (rule c(3))
next
  assume h: "myRole st = Write \<and> filter isImageFile files \<noteq> []"
  show "\<exists>m \<le> length (filter isImageFile files).
         progSeen (onPickFolder cloud B files st) =
           progSeen st @ uploadHeader files #
           map (\<lambda>k. progAfter (uploadHeader files) (0, 0) (take k (filter isImageFile files)))
               [1..<Suc m] \<and>
         prog (onPickFolder cloud B files st) =
           (if m = 0 then uploadHeader files
            else progAfter (uploadHeader files) (0, 0) (take m (filter isImageFile files))) \<and>
         (msg (onPickFolder cloud B files st) = None \<longleftrightarrow> m = length (filter isImageFile files))"
    by (rule onPickFolder_progress [OF h [THEN conjunct1] h [THEN conjunct2]])
qed

theorem progress_counts_witness:
  "statsSeen (scanLocalFolderPhotosOnly sampleBrowser (Some (Inr beachDir)) ''L1'' sampleApp) =
     [zeroStats,
      \<lparr>totalFiles = 1, doneFiles = 0, totalBytes = 62914560, doneBytes = 0,
       originalBytes = 0, previewBytes = 0\<rparr>,
      \<lparr>totalFiles = 1, doneFiles = 1, totalBytes = 62914560, doneBytes = 62914560,
       originalBytes = 62914560, previewBytes = 1048576\<rparr>] \<and>
   doneFiles (scanStats (scanLocalFolderPhotosOnly sampleBrowser (Some (Inr beachDir)) ''L1'' sampleApp)) =
     totalFiles (scanStats (scanLocalFolderPhotosOnly sampleBrowser (Some (Inr beachDir)) ''L1'' sampleApp)) \<and>
   doneFiles (scanStats (scanLocalFolderPhotosOnly sampleBrowser (Some (Inr tornLastDir)) ''L1'' sampleApp)) = 1 \<and>
   (\<exists>m \<le> 2. prog (onPickFolder sampleCloud ''a1'' [photoB, photoA] samplePage) =
      (if m = 0 then uploadHeader [photoB, photoA]
       else progAfter (uploadHeader [photoB, photoA]) (0, 0) (take m [photoB, photoA])))"
proof -
  note t1 = progress_counts [where br = sampleBrowser and picker = "Some (Inr beachDir)"
      and A = "''L1''" and app = sampleApp and d = beachDir
      and entries = "[(photoA, ''beach.JPG''),
          (\<lparr>file_name = ''todo.txt'', file_type = ''text/plain'', file_size = 120,
            file_lastModified = 1700000000000, file_bytes = 7\<rparr>, ''notes/todo.txt'')]"
      and before = "[]" and bad = "(photoA, ''beach.JPG'')" and after = "[]" and e = decodeError
      and st = samplePage and files = "[photoB, photoA]" and cloud = sampleCloud and B = "''a1''"]
  note t2 = progress_counts [where br = sampleBrowser and picker = "Some (Inr tornLastDir)"
      and A = "''L1''" and app = sampleApp and d = tornLastDir
      and entries = "[(photoA, ''beach.JPG''), (torn, ''torn.jpg'')]"
      and before = "[(photoA, ''beach.JPG'')]" and bad = "(torn, ''torn.jpg'')" and after = "[]"
      and e = decodeError
      and st = samplePage and files = "[photoB, photoA]" and cloud = sampleCloud and B = "''a1''"]
  have le1: "bytesOf (photosOf [(photoA, ''beach.JPG''),
          (\<lparr>file_name = ''todo.txt'', file_type = ''text/plain'', file_size = 120,
            file_lastModified = 1700000000000, file_bytes = 7\<rparr>, ''notes/todo.txt'')])
        \<le> quotaBytes sampleApp"
    unfolding photos_beach by (simp add: bytesOf_def photoA_def sampleApp_def)
  have ok1: "\<forall>p \<in> set (photosOf [(photoA, ''beach.JPG''),
          (\<lparr>file_name = ''todo.txt'', file_type = ''text/plain'', file_size = 120,
            file_lastModified = 1700000000000, file_bytes = 7\<rparr>, ''notes/todo.txt'')]).
        renders sampleBrowser p"
    unfolding photos_beach by (simp add: renders_samples)
  note a = t1 [THEN conjunct2, THEN conjunct1, THEN mp, OF conjI [OF walk_beach le1],
      THEN conjunct1, unfolded photos_beach]
  note b = t1 [THEN conjunct2, THEN conjunct2, THEN conjunct1, THEN mp,
      OF conjI [OF walk_beach conjI [OF le1 ok1]], THEN conjunct1]
  have ok2: "\<forall>p \<in> set [(photoA, ''beach.JPG'')]. renders sampleBrowser p"
    by (simp add: renders_samples)
  have le2: "bytesOf (photosOf [(photoA, ''beach.JPG''), (torn, ''torn.jpg'')]) \<le> quotaBytes sampleApp"
    unfolding photos_torn(2) by (rule bytes_torn(2))
  note c = t2 [THEN conjunct2, THEN conjunct2, THEN conjunct2, THEN conjunct1, THEN mp,
      OF conjI [OF walk_torn(2) conjI [OF le2 conjI [OF photos_torn(2) conjI [OF ok2 torn_fails]]]],
      THEN conjunct1]
  have im: "filter isImageFile [photoB, photoA] = [photoB, photoA]"
    by (simp add: isImage_samples)
  have ne: "filter isImageFile [photoB, photoA] \<noteq> []"
    unfolding im by simp
  have w: "myRole samplePage = Write"
    by (simp add: samplePage_def)
  from t1 [THEN conjunct2, THEN conjunct2, THEN conjunct2, THEN conjunct2, THEN mp,
      OF conjI [OF w ne], unfolded im]
  obtain m where m: "m \<le> length [photoB, photoA]"
    and p: "prog (onPickFolder sampleCloud ''a1'' [photoB, photoA] samplePage) =
      (if m = 0 then uploadHeader [photoB, photoA]
       else progAfter (uploadHeader [photoB, photoA]) (0, 0) (take m [photoB, photoA]))"
    by (elim exE conjE)
  from m have "m \<le> 2" by simp
  with p have d: "\<exists>m \<le> 2. prog (onPickFolder sampleCloud ''a1'' [photoB, photoA] samplePage) =
      (if m = 0 then uploadHeader [photoB, photoA]
       else progAfter (uploadHeader [photoB, photoA]) (0, 0) (take m [photoB, photoA]))"
    by (intro exI [of _ m] conjI)
  have a': "statsSeen (scanLocalFolderPhotosOnly sampleBrowser (Some (Inr beachDir)) ''L1'' sampleApp) =
     [zeroStats,
      \<lparr>totalFiles = 1, doneFiles = 0, totalBytes = 62914560, doneBytes = 0,
       originalBytes = 0, previewBytes = 0\<rparr>,
      \<lparr>totalFiles = 1, doneFiles = 1, totalBytes = 62914560, doneBytes = 62914560,
       originalBytes = 62914560, previewBytes = 1048576\<rparr>]"
    unfolding a
    by (simp add: renders_samples statsAfter_def startVars_def bytesOf_def previewSize_def
        sample_previews zeroStats_def sampleApp_def)
      (simp add: photoA_def)
  from a' b c d show ?thesis
    by simp
qed

subsection \<open>The quota\<close>

lemma picker_cases:
  "(picker = None \<or> (\<exists>e. picker = Some (Inl e)) \<or>
    (\<exists>d e. picker = Some (Inr d) \<and> readDirHandle d = Inl e) \<or>
    (\<exists>d entries. picker = Some (Inr d) \<and> readDirHandle d = Inr entries \<and>
       bytesOf (photosOf entries) > quotaBytes app)) \<or>
   (\<exists>d entries. picker = Some (Inr d) \<and> readDirHandle d = Inr entries \<and>
       bytesOf (photosOf entries) \<le> quotaBytes app)"
proof (cases picker)
  case None
  then show ?thesis by simp
next
  case (Some r)
  show ?thesis
  proof (cases r)
    case (Inl e)
    with Some show ?thesis by simp
  next
    case (Inr d)
    show ?thesis
    proof (cases "readDirHandle d")
      case (Inl e)
      with Some \<open>r = Inr d\<close> show ?thesis by simp
    next
      case rd: (Inr entries)
      with Some \<open>r = Inr d\<close> show ?thesis
        by (cases "bytesOf (photosOf entries) > quotaBytes app") simp_all
    qed
  qed
qed

lemma scanBody_no_run:
  assumes "picker = None \<or> (\<exists>e. picker = Some (Inl e)) \<or>
           (\<exists>d e. picker = Some (Inr d) \<and> readDirHandle d = Inl e) \<or>
           (\<exists>d entries. picker = Some (Inr d) \<and> readDirHandle d = Inr entries \<and>
              bytesOf (photosOf entries) > quotaBytes app)"
  shows "\<exists>thrown al. scanBody br picker A (scanStart A app) =
      (thrown, (scanStart A app)\<lparr>alerts := al\<rparr>)"
  using assms
proof (elim disjE exE conjE)
  assume "picker = None"
  then have "scanBody br picker A (scanStart A app) =
      (None, (scanStart A app)\<lparr>alerts := alerts (scanStart A app) @
         [Message ''Folder picking needs Chrome/Edge (File System Access API).'']\<rparr>)"
    by (simp add: scanBody_cases alert_def)
  then show ?thesis by blast
next
  fix e assume "picker = Some (Inl e)"
  then have "scanBody br picker A (scanStart A app) =
      (Some e, (scanStart A app)\<lparr>alerts := alerts (scanStart A app)\<rparr>)"
    by (simp add: scanBody_cases)
  then show ?thesis by blast
next
  fix d e assume "picker = Some (Inr d)" "readDirHandle d = Inl e"
  then have "scanBody br picker A (scanStart A app) =
      (Some e, (scanStart A app)\<lparr>alerts := alerts (scanStart A app)\<rparr>)"
    by (simp add: scanBody_cases)
  then show ?thesis by blast
next
  fix d entries assume "picker = Some (Inr d)" "readDirHandle d = Inr entries"
    "bytesOf (photosOf entries) > quotaBytes app"
  then have "scanBody br picker A (scanStart A app) =
      (None, (scanStart A app)\<lparr>alerts := alerts (scanStart A app) @
         [QuotaExceeded (bytesOf (photosOf entries)) (quotaBytes (scanStart A app))]\<rparr>)"
    by (simp add: scanBody_cases(4) scanStart_fields alert_def)
  then show ?thesis by blast
qed

lemma scan_albums_cases:
  "albums (scanLocalFolderPhotosOnly br picker A app) = albums (scanStart A app) \<or>
   (\<exists>(v::ScanVars) n. v_originalBytes v \<le> quotaBytes app \<and>
      albums (scanLocalFolderPhotosOnly br picker A app) =
        map (\<lambda>a. if local_id a = A
                  then a\<lparr>local_originalBytes := v_originalBytes v,
                         local_previewBytes := v_previewBytes v,
                         local_itemsScanned := n,
                         local_previewUrls := v_previewUrls v\<rparr>
                  else a) (albums (scanStart A app)))"
  using picker_cases [of picker app]
proof (elim disjE [where P = "_ \<or> _ \<or> _ \<or> _"] exE conjE)
  assume "picker = None \<or> (\<exists>e. picker = Some (Inl e)) \<or>
    (\<exists>d e. picker = Some (Inr d) \<and> readDirHandle d = Inl e) \<or>
    (\<exists>d entries. picker = Some (Inr d) \<and> readDirHandle d = Inr entries \<and>
       bytesOf (photosOf entries) > quotaBytes app)"
  from scanBody_no_run [OF this, of br A] obtain thrown al where
    "scanBody br picker A (scanStart A app) = (thrown, (scanStart A app)\<lparr>alerts := al\<rparr>)"
    by blast
  then have "albums (scanLocalFolderPhotosOnly br picker A app) = albums (scanStart A app)"
    by (simp add: scan_unfold scanCatch_fields)
  then show ?thesis by (rule disjI1)
next
  fix d entries
  assume p: "picker = Some (Inr d)" and rd: "readDirHandle d = Inr entries"
    and le: "bytesOf (photosOf entries) \<le> quotaBytes app"
  obtain res app2 where
    l: "scanLoop br (length (photosOf entries)) (bytesOf (photosOf entries)) (photosOf entries)
           startVars (scanHeader (photosOf entries) A app) = (res, app2)"
    by (cases "scanLoop br (length (photosOf entries)) (bytesOf (photosOf entries))
           (photosOf entries) startVars (scanHeader (photosOf entries) A app)") auto
  note o = scan_run_outcome [OF rd le l]
  show ?thesis
  proof (cases res)
    case (Inl e)
    with o have "albums (scanLocalFolderPhotosOnly br picker A app) = albums (scanStart A app)"
      by (simp add: p)
    then show ?thesis by (rule disjI1)
  next
    case (Inr v)
    with l scanLoop_vars [of br _ _ "photosOf entries" startVars _ v app2]
    have "v_originalBytes v = bytesOf (photosOf entries)"
      by (simp add: startVars_def)
    with le have "v_originalBytes v \<le> quotaBytes app"
      by simp
    moreover from Inr o have "albums (scanLocalFolderPhotosOnly br picker A app) =
        map (\<lambda>a. if local_id a = A
                  then a\<lparr>local_originalBytes := v_originalBytes v,
                         local_previewBytes := v_previewBytes v,
                         local_itemsScanned := length (photosOf entries),
                         local_previewUrls := v_previewUrls v\<rparr>
                  else a) (albums (scanStart A app))"
      by (simp add: p)
    ultimately show ?thesis
      by - (rule disjI2, rule exI [of _ v], rule exI [of _ "length (photosOf entries)"], rule conjI)
  qed
qed

lemma scan_bytes_bounded:
  assumes "i < length (albums app)"
  shows "local_originalBytes (albums (scanLocalFolderPhotosOnly br picker A app) ! i) =
           local_originalBytes (albums app ! i) \<or>
         (local_id (albums app ! i) = A \<and>
          local_originalBytes (albums (scanLocalFolderPhotosOnly br picker A app) ! i)
            \<le> quotaBytes app)"
  using scan_albums_cases [of br picker A app]
proof (elim disjE exE conjE)
  assume "albums (scanLocalFolderPhotosOnly br picker A app) = albums (scanStart A app)"
  with assms show ?thesis
    by (simp add: scanStart_fields)
next
  fix v :: ScanVars and n
  assume "v_originalBytes v \<le> quotaBytes app"
    and "albums (scanLocalFolderPhotosOnly br picker A app) =
        map (\<lambda>a. if local_id a = A
                  then a\<lparr>local_originalBytes := v_originalBytes v,
                         local_previewBytes := v_previewBytes v,
                         local_itemsScanned := n,
                         local_previewUrls := v_previewUrls v\<rparr>
                  else a) (albums (scanStart A app))"
  with assms show ?thesis
    by (simp add: scanStart_fields)
qed

lemma reserve_quota_step:
  "(fst (reserve_quota acct delta) = None \<longrightarrow>
      used_bytes (snd (reserve_quota acct delta)) = used_bytes acct + delta \<and>
      used_bytes (snd (reserve_quota acct delta)) \<le> limit_bytes acct) \<and>
   (fst (reserve_quota acct delta) \<noteq> None \<longrightarrow> snd (reserve_quota acct delta) = acct) \<and>
   limit_bytes (snd (reserve_quota acct delta)) = limit_bytes acct"
  by (simp add: reserve_quota_def)

lemma reserve_quota_invariant:
  assumes "used_bytes acct \<le> limit_bytes acct"
  shows "used_bytes (foldl (\<lambda>a d. snd (reserve_quota a d)) acct deltas) \<le> limit_bytes acct \<and>
         limit_bytes (foldl (\<lambda>a d. snd (reserve_quota a d)) acct deltas) = limit_bytes acct"
  using assms
proof (induction deltas arbitrary: acct)
  case Nil
  then show ?case by simp
next
  case (Cons d deltas)
  from Cons.prems reserve_quota_step [of acct d]
  have "used_bytes (snd (reserve_quota acct d)) \<le> limit_bytes (snd (reserve_quota acct d))"
    by (cases "fst (reserve_quota acct d)") auto
  from Cons.IH [OF this] reserve_quota_step [of acct d] show ?case
    by simp
qed

lemma scan_quota:
  "quotaBytes (scanLocalFolderPhotosOnly br picker A app) = quotaBytes app"
  using picker_cases [of picker app]
proof (elim disjE [where P = "_ \<or> _ \<or> _ \<or> _"] exE conjE)
  assume "picker = None \<or> (\<exists>e. picker = Some (Inl e)) \<or>
    (\<exists>d e. picker = Some (Inr d) \<and> readDirHandle d = Inl e) \<or>
    (\<exists>d entries. picker = Some (Inr d) \<and> readDirHandle d = Inr entries \<and>
       bytesOf (photosOf entries) > quotaBytes app)"
  from scanBody_no_run [OF this, of br A] obtain thrown al where
    "scanBody br picker A (scanStart A app) = (thrown, (scanStart A app)\<lparr>alerts := al\<rparr>)"
    by blast
  then show ?thesis
    by (simp add: scan_unfold scanCatch_fields scanStart_fields)
next
  fix d entries
  assume p: "picker = Some (Inr d)" and rd: "readDirHandle d = Inr entries"
    and le: "bytesOf (photosOf entries) \<le> quotaBytes app"
  from le have le': "bytesOf (photosOf entries) \<le> quotaBytes (scanStart A app)"
    by (simp add: scanStart_fields)
  obtain res app2 where
    l: "scanLoop br (length (photosOf entries)) (bytesOf (photosOf entries)) (photosOf entries)
           startVars (scanHeader (photosOf entries) A app) = (res, app2)"
    by (cases "scanLoop br (length (photosOf entries)) (bytesOf (photosOf entries))
           (photosOf entries) startVars (scanHeader (photosOf entries) A app)") auto
  note fr = scanLoop_frame [of br "length (photosOf entries)" "bytesOf (photosOf entries)"
      "photosOf entries" startVars "scanHeader (photosOf entries) A app", unfolded l snd_conv]
  have h: "quotaBytes (scanHeader (photosOf entries) A app) = quotaBytes app"
    by (simp add: scanHeader_def setScanStats_def scanStart_fields)
  from l have "quotaBytes (snd (scanBody br (Some (Inr d)) A (scanStart A app))) = quotaBytes app2"
    unfolding scanBody_cases(5) [OF rd le'] scanHeader_def
    by (cases res) simp_all
  with fr h show ?thesis
    by (simp add: p scan_unfold scanCatch_fields)
qed

lemma scan_completed_bytes:
  assumes "readDirHandle d = Inr entries"
    and "bytesOf (photosOf entries) \<le> quotaBytes app"
    and "\<forall>p \<in> set (photosOf entries). renders br p"
  shows "map local_originalBytes (albums (scanLocalFolderPhotosOnly br (Some (Inr d)) A app)) =
           map (\<lambda>a. if local_id a = A then bytesOf (photosOf entries) else local_originalBytes a)
             (albums app)"
    and "alerts (scanLocalFolderPhotosOnly br (Some (Inr d)) A app) = alerts app"
proof -
  from scanLoop_completes [OF assms(3), of "length (photosOf entries)" "bytesOf (photosOf entries)"
      startVars "scanHeader (photosOf entries) A app"]
  obtain v app2 where
    l: "scanLoop br (length (photosOf entries)) (bytesOf (photosOf entries)) (photosOf entries)
           startVars (scanHeader (photosOf entries) A app) = (Inr v, app2)"
    and v: "v_originalBytes v = v_originalBytes startVars + bytesOf (photosOf entries)"
    by (elim exE conjE)
  note o = scan_run_outcome [OF assms(1,2) l, simplified]
  from o show "alerts (scanLocalFolderPhotosOnly br (Some (Inr d)) A app) = alerts app"
    by (rule conjunct1)
  from o have "albums (scanLocalFolderPhotosOnly br (Some (Inr d)) A app) =
               map (\<lambda>a. if local_id a = A
                         then a\<lparr>local_originalBytes := v_originalBytes v,
                                local_previewBytes := v_previewBytes v,
                                local_itemsScanned := length (photosOf entries),
                                local_previewUrls := v_previewUrls v\<rparr>
                         else a) (albums (scanStart A app))"
    by (elim conjE)
  then show "map local_originalBytes (albums (scanLocalFolderPhotosOnly br (Some (Inr d)) A app)) =
           map (\<lambda>a. if local_id a = A then bytesOf (photosOf entries) else local_originalBytes a)
             (albums app)"
    by (simp add: scanStart_fields v startVars_def o_def)
qed

lemma scan_ids:
  "map local_id (albums (scanLocalFolderPhotosOnly br picker A app)) = map local_id (albums app)"
  using scan_albums_cases [of br picker A app]
proof (elim disjE exE conjE)
  assume "albums (scanLocalFolderPhotosOnly br picker A app) = albums (scanStart A app)"
  then show ?thesis
    by (simp add: scanStart_fields o_def)
next
  fix v :: ScanVars and n
  assume "albums (scanLocalFolderPhotosOnly br picker A app) =
        map (\<lambda>a. if local_id a = A
                  then a\<lparr>local_originalBytes := v_originalBytes v,
                         local_previewBytes := v_previewBytes v,
                         local_itemsScanned := n,
                         local_previewUrls := v_previewUrls v\<rparr>
                  else a) (albums (scanStart A app))"
  then show ?thesis
    by (simp add: scanStart_fields o_def)
qed

lemma bytes_by_id:
  "map (\<lambda>a. if local_id a = A then c else local_originalBytes a) xs =
     map (\<lambda>(i, b). if i = A then c else b) (zip (map local_id xs) (map local_originalBytes xs))"
  by (induction xs) simp_all

lemma walk_hill: "readDirHandle hillDir = Inr [(photoB, ''hill.png'')]"
  by (simp add: readDirHandle_def hillDir_def)

lemma photos_hill: "photosOf [(photoB, ''hill.png'')] = [(photoB, ''hill.png'')]"
  by (simp add: photosOf_def isPhoto_samples)

text \<open>
  The claim C1 as it is written fails on the local scan, which decides locally whether
  there is room and then writes. It compares the selected folder with the quota, not with
  what the other albums already hold: after a scan of 60 MB into one album and a scan of
  60 MB into another, both accepted without an alert, the albums hold 120 MB under a quota
  of 100 MB.
\<close>

theorem local_check_counterexample:
  "map local_originalBytes
     (albums (scanLocalFolderPhotosOnly sampleBrowser (Some (Inr hillDir)) ''L2''
        (scanLocalFolderPhotosOnly sampleBrowser (Some (Inr beachDir)) ''L1'' sampleApp))) =
     [62914560, 62914560] \<and>
   alerts (scanLocalFolderPhotosOnly sampleBrowser (Some (Inr hillDir)) ''L2''
        (scanLocalFolderPhotosOnly sampleBrowser (Some (Inr beachDir)) ''L1'' sampleApp)) = [] \<and>
   quotaBytes (scanLocalFolderPhotosOnly sampleBrowser (Some (Inr hillDir)) ''L2''
        (scanLocalFolderPhotosOnly sampleBrowser (Some (Inr beachDir)) ''L1'' sampleApp)) =
     104857600 \<and>
   (62914560 :: nat) + 62914560 > 104857600"
proof -
  let ?app1 = "scanLocalFolderPhotosOnly sampleBrowser (Some (Inr beachDir)) ''L1'' sampleApp"
  have q: "quotaBytes sampleApp = 104857600" "quotaBytes ?app1 = 104857600"
    by (simp_all add: scan_quota) (simp_all add: sampleApp_def)
  have b: "bytesOf [(photoA, ''beach.JPG'')] = 62914560" "bytesOf [(photoB, ''hill.png'')] = 62914560"
    by (simp_all add: bytesOf_def photoA_def photoB_def)
  have le1: "bytesOf (photosOf [(photoA, ''beach.JPG''),
          (\<lparr>file_name = ''todo.txt'', file_type = ''text/plain'', file_size = 120,
            file_lastModified = 1700000000000, file_bytes = 7\<rparr>, ''notes/todo.txt'')])
        \<le> quotaBytes sampleApp"
    unfolding photos_beach b q by simp
  have r1: "\<forall>p \<in> set (photosOf [(photoA, ''beach.JPG''),
          (\<lparr>file_name = ''todo.txt'', file_type = ''text/plain'', file_size = 120,
            file_lastModified = 1700000000000, file_bytes = 7\<rparr>, ''notes/todo.txt'')]).
          renders sampleBrowser p"
    unfolding photos_beach by (simp add: renders_samples)
  note s1 = scan_completed_bytes [OF walk_beach le1 r1, of "''L1''", unfolded photos_beach b]
  have le2: "bytesOf (photosOf [(photoB, ''hill.png'')]) \<le> quotaBytes ?app1"
    unfolding photos_hill b q by simp
  have r2: "\<forall>p \<in> set (photosOf [(photoB, ''hill.png'')]). renders sampleBrowser p"
    unfolding photos_hill by (simp add: renders_samples)
  note s2 = scan_completed_bytes [OF walk_hill le2 r2, of "''L2''", unfolded photos_hill b]
  have ids: "map local_id (albums ?app1) = [''L1'', ''L2'']"
    by (simp add: scan_ids) (simp add: sampleApp_def goaLocal_def alpsLocal_def)
  from s1(1) have o1: "map local_originalBytes (albums ?app1) = [62914560, 6000000]"
    by (simp add: sampleApp_def goaLocal_def alpsLocal_def)
  from s2(1) have "map local_originalBytes
     (albums (scanLocalFolderPhotosOnly sampleBrowser (Some (Inr hillDir)) ''L2'' ?app1)) =
     [62914560, 62914560]"
    unfolding bytes_by_id ids o1 by simp
  moreover from s1(2) s2(2)
  have "alerts (scanLocalFolderPhotosOnly sampleBrowser (Some (Inr hillDir)) ''L2'' ?app1) = []"
    by (simp add: sampleApp_def)
  moreover have "quotaBytes (scanLocalFolderPhotosOnly sampleBrowser (Some (Inr hillDir)) ''L2'' ?app1) =
     104857600"
    by (simp add: scan_quota q)
  ultimately show ?thesis
    by simp
qed

text \<open>
  C1 (amended). For the backend operation as the specification describes it,
  \<open>used_bytes \<le> limit_bytes\<close> holds after every reservation of every sequence. The
  album page never decides locally: a run changes the account only through the calls of
  \<open>reserve_quota\<close> it makes, one call for each recorded reservation, so with that backend
  the bound still holds when the run is over. The local scan decides locally: it leaves the
  quota as it is, and every album's original bytes are either what they were or, for the
  scanned album, at most the quota. Nothing bounds their sum.
\<close>

theorem quota_guarded:
  fixes cloud :: "('b, QuotaAccount) Cloud"
  shows
  "(used_bytes acct \<le> limit_bytes acct \<longrightarrow>
      (\<forall>n. used_bytes (foldl (\<lambda>a delta. snd (reserve_quota a delta)) acct (take n deltas))
             \<le> limit_bytes acct)) \<and>
   (\<exists>new. reserveCalls (onPickFolder cloud B files st) = reserveCalls st @ new \<and>
      quota (supabase (onPickFolder cloud B files st)) =
        foldl (\<lambda>q delta. snd (reserve_quota_rpc cloud q delta)) (quota (supabase st))
          (map snd new)) \<and>
   (reserve_quota_rpc cloud = reserve_quota \<and>
    used_bytes (quota (supabase st)) \<le> limit_bytes (quota (supabase st)) \<longrightarrow>
      used_bytes (quota (supabase (onPickFolder cloud B files st)))
        \<le> limit_bytes (quota (supabase st))) \<and>
   quotaBytes (scanLocalFolderPhotosOnly br picker A app) = quotaBytes app \<and>
   length (albums (scanLocalFolderPhotosOnly br picker A app)) = length (albums app) \<and>
   (\<forall>i < length (albums app).
      local_originalBytes (albums (scanLocalFolderPhotosOnly br picker A app) ! i) =
        local_originalBytes (albums app ! i) \<or>
      local_id (albums app ! i) = A \<and>
      local_originalBytes (albums (scanLocalFolderPhotosOnly br picker A app) ! i)
        \<le> quotaBytes app)"
proof -
  from onPickFolder_calls [of cloud B files st] obtain new where
    n: "reserveCalls (onPickFolder cloud B files st) = reserveCalls st @ new"
    and q: "quota (supabase (onPickFolder cloud B files st)) =
        foldl (\<lambda>q delta. snd (reserve_quota_rpc cloud q delta)) (quota (supabase st))
          (map snd new)"
    by (elim exE conjE)
  have a: "used_bytes acct \<le> limit_bytes acct \<longrightarrow>
      (\<forall>n. used_bytes (foldl (\<lambda>a delta. snd (reserve_quota a delta)) acct (take n deltas))
             \<le> limit_bytes acct)"
    using reserve_quota_invariant [of acct] by simp
  from n q have b: "\<exists>new. reserveCalls (onPickFolder cloud B files st) = reserveCalls st @ new \<and>
      quota (supabase (onPickFolder cloud B files st)) =
        foldl (\<lambda>q delta. snd (reserve_quota_rpc cloud q delta)) (quota (supabase st))
          (map snd new)"
    by (intro exI [of _ new] conjI)
  have c: "used_bytes (quota (supabase (onPickFolder cloud B files st)))
        \<le> limit_bytes (quota (supabase st))"
    if "reserve_quota_rpc cloud = reserve_quota"
      and "used_bytes (quota (supabase st)) \<le> limit_bytes (quota (supabase st))"
    unfolding q that(1) using reserve_quota_invariant [OF that(2)] by simp
  have d: "length (albums (scanLocalFolderPhotosOnly br picker A app)) = length (albums app)"
    using scan_ids [of br picker A app, THEN arg_cong [where f = length]] by simp
  have e: "\<forall>i < length (albums app).
      local_originalBytes (albums (scanLocalFolderPhotosOnly br picker A app) ! i) =
        local_originalBytes (albums app ! i) \<or>
      local_id (albums app ! i) = A \<and>
      local_originalBytes (albums (scanLocalFolderPhotosOnly br picker A app) ! i)
        \<le> quotaBytes app"
    using scan_bytes_bounded [of _ app br picker A] by simp
  from c have c': "reserve_quota_rpc cloud = reserve_quota \<and>
    used_bytes (quota (supabase st)) \<le> limit_bytes (quota (supabase st)) \<longrightarrow>
      used_bytes (quota (supabase (onPickFolder cloud B files st)))
        \<le> limit_bytes (quota (supabase st))"
    by simp
  from a b c' scan_quota [of br picker A app] d e show ?thesis
    by (intro conjI)
qed

theorem quota_guarded_witness:
  "used_bytes (foldl (\<lambda>a delta. snd (reserve_quota a delta))
      \<lparr>used_bytes = 0, limit_bytes = 1500000\<rparr> (take 2 [1048576, 2097152, 400000])) = 1048576 \<and>
   used_bytes (foldl (\<lambda>a delta. snd (reserve_quota a delta))
      \<lparr>used_bytes = 0, limit_bytes = 1500000\<rparr> (take 3 [1048576, 2097152, 400000])) = 1448576 \<and>
   reserve_quota_rpc sampleCloud = reserve_quota \<and>
   limit_bytes (quota (supabase samplePage)) = 1500000 \<and>
   used_bytes (quota (supabase (onPickFolder sampleCloud ''a1'' [photoA, photoB] samplePage)))
     \<le> 1500000 \<and>
   local_id (albums sampleApp ! 1) = ''L2'' \<and>
   local_originalBytes
     (albums (scanLocalFolderPhotosOnly sampleBrowser (Some (Inr beachDir)) ''L1'' sampleApp) ! 1) =
     6000000"
proof -
  note t = quota_guarded [where acct = "\<lparr>used_bytes = 0, limit_bytes = 1500000\<rparr>"
      and deltas = "[1048576, 2097152, 400000]" and cloud = sampleCloud and B = "''a1''"
      and files = "[photoA, photoB]" and st = samplePage and br = sampleBrowser
      and picker = "Some (Inr beachDir)" and A = "''L1''" and app = sampleApp]
  have f: "reserve_quota_rpc sampleCloud = reserve_quota"
    "used_bytes (quota (supabase samplePage)) = 0"
    "limit_bytes (quota (supabase samplePage)) = 1500000"
    by (simp_all add: sampleCloud_def samplePage_def)
  have s: "used_bytes (foldl (\<lambda>a delta. snd (reserve_quota a delta))
      \<lparr>used_bytes = 0, limit_bytes = 1500000\<rparr> (take 2 [1048576, 2097152, 400000])) = 1048576"
    "used_bytes (foldl (\<lambda>a delta. snd (reserve_quota a delta))
      \<lparr>used_bytes = 0, limit_bytes = 1500000\<rparr> (take 3 [1048576, 2097152, 400000])) = 1448576"
    by (simp_all add: reserve_quota_def take_Cons')
  from t [THEN conjunct2, THEN conjunct2, THEN conjunct1] f
  have u: "used_bytes (quota (supabase (onPickFolder sampleCloud ''a1'' [photoA, photoB] samplePage)))
     \<le> 1500000"
    by simp
  have g: "local_id (albums sampleApp ! 1) = ''L2''"
    "local_originalBytes (albums sampleApp ! 1) = 6000000"
    "(1::nat) < length (albums sampleApp)"
    by (simp_all add: sampleApp_def alpsLocal_def)
  from t [THEN conjunct2, THEN conjunct2, THEN conjunct2, THEN conjunct2, THEN conjunct2,
      THEN spec, of 1] g
  have "local_originalBytes
     (albums (scanLocalFolderPhotosOnly sampleBrowser (Some (Inr beachDir)) ''L1'' sampleApp) ! 1) =
     6000000"
    by simp
  with s f u g show ?thesis
    by simp
qed

end
